theory Spec2Isabelle
  imports Complex_Main "HOL-Library.Multiset"
begin

section \<open>Values, failures and the slice store\<close>

text \<open>
  A \<open>float64\<close> is a finite number, one of the two infinities, or NaN: the three kinds
  that \<open>Add\<close> tells apart with \<open>math.IsNaN\<close> and \<open>math.IsInf\<close>. Finite values are
  reals: rounding and the sign of zero are not modelled, so arithmetic on finite values is
  exact here. The scenarios below use small integers only, where float64 arithmetic is
  exact as well.
\<close>

datatype float64 = Finite real | PosInf | NegInf | NaN

definition IsNaN :: "float64 \<Rightarrow> bool" where
  "IsNaN f = (f = NaN)"

definition IsInf :: "float64 \<Rightarrow> int \<Rightarrow> bool" where
  "IsInf f sign = (0 \<le> sign \<and> f = PosInf \<or> sign \<le> 0 \<and> f = NegInf)"

text \<open>
  What stops a call: the run-time panics of indexing, slicing, \<open>%\<close> and \<open>make\<close>, and
  the two fatal errors of \<open>sync.RWMutex\<close> that a single thread can meet (locking a mutex
  that is held can never succeed when no other thread exists to release it).
\<close>

datatype failure =
    IndexOutOfRange
  | SliceBoundsOutOfRange
  | DivideByZero
  | MakeSliceLenOutOfRange
  | NilDereference
  | Deadlock
  | UnlockOfUnlockedMutex

text \<open>A Go \<open>error\<close> value; \<open>nil\<close> is \<open>None\<close> of \<open>error option\<close>.\<close>

datatype error = EmptyInputErr | Err string

text \<open>
  Backing arrays live in a heap, addressed by their index in it. A slice is Go's header:
  the array it points into (\<open>None\<close> for the nil slice), its length and its capacity.
  Every slice of this program starts at offset 0 of its array.
\<close>

type_synonym addr = nat

type_synonym heap = "float64 list list"

record slice =
  ptr :: "addr option"
  len :: nat
  cap :: nat

definition nil_slice :: slice where
  "nil_slice = \<lparr>ptr = None, len = 0, cap = 0\<rparr>"

text \<open>
  \<open>make([]float64, n)\<close>: a fresh zeroed array; panics on a negative length. The limit
  that the run-time puts on the size of one allocation is not modelled.
\<close>

definition make_slice :: "int \<Rightarrow> heap \<Rightarrow> failure + (slice \<times> heap)" where
  "make_slice n h =
     (if n < 0 then Inl MakeSliceLenOutOfRange
      else Inr (\<lparr>ptr = Some (length h), len = nat n, cap = nat n\<rparr>,
                h @ [replicate (nat n) (Finite 0)]))"

text \<open>The elements a slice shows: the first \<open>len\<close> cells of its array.\<close>

definition contents :: "heap \<Rightarrow> slice \<Rightarrow> float64 list" where
  "contents h d =
     (case ptr d of
        None \<Rightarrow> []
      | Some a \<Rightarrow> if a < length h then take (len d) (h ! a) else [])"

text \<open>\<open>d[i] = v\<close>: bounds-checked against the length.\<close>

definition slice_set :: "slice \<Rightarrow> int \<Rightarrow> float64 \<Rightarrow> heap \<Rightarrow> failure + heap" where
  "slice_set d i v h =
     (if i < 0 \<or> int (len d) \<le> i then Inl IndexOutOfRange
      else case ptr d of
             None \<Rightarrow> Inl NilDereference
           | Some a \<Rightarrow> Inr (h[a := (h ! a)[nat i := v]]))"

text \<open>\<open>d[0 : hi]\<close>: the upper bound is checked against the capacity.\<close>

definition slice_upto :: "slice \<Rightarrow> int \<Rightarrow> failure + slice" where
  "slice_upto d hi =
     (if hi < 0 \<or> int (cap d) < hi then Inl SliceBoundsOutOfRange
      else Inr (d\<lparr>len := nat hi\<rparr>))"

text \<open>\<open>copy(dst, src)\<close>: the first \<open>min (len dst) (len src)\<close> elements.\<close>

definition copy_slice :: "slice \<Rightarrow> slice \<Rightarrow> heap \<Rightarrow> heap" where
  "copy_slice dst src h =
     (case ptr dst of
        None \<Rightarrow> h
      | Some a \<Rightarrow>
          (let n = min (len dst) (len src)
           in h[a := take n (contents h src) @ drop n (h ! a)]))"

text \<open>Go's \<open>%\<close> on integers: the sign follows the dividend; a zero divisor panics.\<close>

definition go_rem :: "int \<Rightarrow> int \<Rightarrow> failure + int" where
  "go_rem a b = (if b = 0 then Inl DivideByZero else Inr (sgn a * (\<bar>a\<bar> mod \<bar>b\<bar>)))"

section \<open>The statistics collaborator\<close>

text \<open>
  Modelled from the spec: the four functions of the external statistics library
  (\<open>github.com/montanaflynn/stats\<close>), whose source is not part of the repository. The spec
  takes them as pure functions over a sequence of floats that return a result or an error,
  the error signalling empty input. Arithmetic and comparison follow IEEE 754 on the
  special values (NaN is contagious and compares false with everything).
\<close>

fun fadd :: "float64 \<Rightarrow> float64 \<Rightarrow> float64" where
  "fadd NaN _ = NaN"
| "fadd _ NaN = NaN"
| "fadd PosInf NegInf = NaN"
| "fadd NegInf PosInf = NaN"
| "fadd PosInf _ = PosInf"
| "fadd _ PosInf = PosInf"
| "fadd NegInf _ = NegInf"
| "fadd _ NegInf = NegInf"
| "fadd (Finite a) (Finite b) = Finite (a + b)"

fun fdiv_count :: "float64 \<Rightarrow> nat \<Rightarrow> float64" where
  "fdiv_count (Finite a) n = Finite (a / real n)"
| "fdiv_count x n = x"

fun flt :: "float64 \<Rightarrow> float64 \<Rightarrow> bool" where
  "flt NaN _ = False"
| "flt _ NaN = False"
| "flt (Finite a) (Finite b) = (a < b)"
| "flt NegInf NegInf = False"
| "flt NegInf _ = True"
| "flt _ NegInf = False"
| "flt PosInf _ = False"
| "flt _ PosInf = True"

definition stats_Sum :: "float64 list \<Rightarrow> float64" where
  "stats_Sum xs = foldl fadd (Finite 0) xs"

definition stats_Mean :: "float64 list \<Rightarrow> float64 \<times> error option" where
  "stats_Mean xs =
     (if length xs = 0 then (NaN, Some EmptyInputErr)
      else (fdiv_count (stats_Sum xs) (length xs), None))"

definition stats_Min :: "float64 list \<Rightarrow> float64 \<times> error option" where
  "stats_Min xs =
     (case xs of
        [] \<Rightarrow> (NaN, Some EmptyInputErr)
      | x # rest \<Rightarrow> (foldl (\<lambda>m y. if flt y m then y else m) x rest, None))"

definition stats_Max :: "float64 list \<Rightarrow> float64 \<times> error option" where
  "stats_Max xs =
     (case xs of
        [] \<Rightarrow> (NaN, Some EmptyInputErr)
      | x # rest \<Rightarrow> (foldl (\<lambda>m y. if flt m y then y else m) x rest, None))"

text \<open>The order the library sorts by: \<open><\<close>, with NaN before every other value.\<close>

definition sort_less :: "float64 \<Rightarrow> float64 \<Rightarrow> bool" where
  "sort_less x y = (flt x y \<or> (IsNaN x \<and> \<not> IsNaN y))"

fun sort_insert :: "float64 \<Rightarrow> float64 list \<Rightarrow> float64 list" where
  "sort_insert x [] = [x]"
| "sort_insert x (y # ys) = (if sort_less y x then y # sort_insert x ys else x # y # ys)"

definition sortedCopy :: "float64 list \<Rightarrow> float64 list" where
  "sortedCopy xs = foldr sort_insert xs []"

definition stats_Median :: "float64 list \<Rightarrow> float64 \<times> error option" where
  "stats_Median xs =
     (let c = sortedCopy xs; l = length c
      in if l = 0 then (NaN, Some EmptyInputErr)
         else if l mod 2 = 0 then (fst (stats_Mean (take 2 (drop (l div 2 - 1) c))), None)
         else (c ! (l div 2), None))"

section \<open>The ring store\<close>

record Options =
  IgnoreNanValues :: bool
  IgnoreInfValues :: bool
  Window :: int

record movingStats =
  window :: int
  values_buf :: slice
  valPos :: int
  slotsFilled :: bool
  ignoreNanValues :: bool
  ignoreInfValues :: bool

text \<open>
  Names are the source's, but where a name is taken: the field \<open>values\<close> is
  \<open>values_buf\<close>, the method \<open>Window\<close> is \<open>Window_of\<close> (the option is \<open>Window\<close>), and the
  methods \<open>Min\<close> and \<open>Max\<close> are \<open>Min_val\<close> and \<open>Max_val\<close>. The functions of the
  statistics package carry its name, as in \<open>stats_Mean\<close>.

  The struct is reached through one pointer only, so it is passed and returned as a value;
  its buffer is a slice into the heap. Integers are unbounded: \<open>valPos + 1\<close> is computed
  only after \<open>values[valPos]\<close> passed its bounds check, so it cannot overflow.
\<close>

definition New :: "Options \<Rightarrow> heap \<Rightarrow> failure + (movingStats \<times> heap)" where
  "New opts h =
     (case make_slice (Window opts) h of
        Inl p \<Rightarrow> Inl p
      | Inr (buf, h') \<Rightarrow>
          Inr (\<lparr>window = Window opts, values_buf = buf, valPos = 0, slotsFilled = False,
                ignoreNanValues = IgnoreNanValues opts,
                ignoreInfValues = IgnoreInfValues opts\<rparr>, h'))"

definition filledValues :: "movingStats \<Rightarrow> failure + slice" where
  "filledValues s =
     (if \<not> slotsFilled s \<and> valPos s - 1 < 0 then Inr nil_slice
      else let c = (if \<not> slotsFilled s then valPos s - 1 else window s - 1)
           in slice_upto (values_buf s) (c + 1))"

text \<open>One round of the loop of \<open>Add\<close>, for a value that passed both filters.\<close>

definition Add_store :: "float64 \<Rightarrow> movingStats \<Rightarrow> heap \<Rightarrow> failure + (movingStats \<times> heap)" where
  "Add_store val s h =
     (case slice_set (values_buf s) (valPos s) val h of
        Inl p \<Rightarrow> Inl p
      | Inr h' \<Rightarrow>
          (case go_rem (valPos s + 1) (window s) of
             Inl p \<Rightarrow> Inl p
           | Inr r \<Rightarrow>
               (let s' = s\<lparr>valPos := r\<rparr>
                in Inr (if \<not> slotsFilled s' \<and> valPos s' = 0
                        then s'\<lparr>slotsFilled := True\<rparr> else s', h'))))"

fun Add :: "float64 list \<Rightarrow> movingStats \<Rightarrow> heap \<Rightarrow> failure + (movingStats \<times> heap)" where
  "Add [] s h = Inr (s, h)"
| "Add (val # rest) s h =
     (if ignoreNanValues s \<and> IsNaN val then Add rest s h
      else if ignoreInfValues s \<and> IsInf val 0 then Add rest s h
      else case Add_store val s h of
             Inl p \<Rightarrow> Inl p
           | Inr (s', h') \<Rightarrow> Add rest s' h')"

definition Window_of :: "movingStats \<Rightarrow> int" where
  "Window_of s = window s"

definition SlotsFilled :: "movingStats \<Rightarrow> bool" where
  "SlotsFilled s = slotsFilled s"

definition Values :: "movingStats \<Rightarrow> heap \<Rightarrow> failure + (slice \<times> heap)" where
  "Values s h =
     (case filledValues s of
        Inl p \<Rightarrow> Inl p
      | Inr internal \<Rightarrow>
          (case make_slice (int (len internal)) h of
             Inl p \<Rightarrow> Inl p
           | Inr (retv, h') \<Rightarrow> Inr (retv, copy_slice retv internal h')))"

definition Count :: "movingStats \<Rightarrow> failure + int" where
  "Count s = (case filledValues s of Inl p \<Rightarrow> Inl p | Inr d \<Rightarrow> Inr (int (len d)))"

text \<open>The four convenience methods: an error of the collaborator becomes \<open>0.0\<close>.\<close>

definition or_zero :: "float64 \<times> error option \<Rightarrow> float64" where
  "or_zero r = (case r of (retv, None) \<Rightarrow> retv | (retv, Some err) \<Rightarrow> Finite 0)"

definition Avg :: "movingStats \<Rightarrow> heap \<Rightarrow> failure + float64" where
  "Avg s h =
     (case filledValues s of Inl p \<Rightarrow> Inl p | Inr d \<Rightarrow> Inr (or_zero (stats_Mean (contents h d))))"

definition Median :: "movingStats \<Rightarrow> heap \<Rightarrow> failure + float64" where
  "Median s h =
     (case filledValues s of Inl p \<Rightarrow> Inl p | Inr d \<Rightarrow> Inr (or_zero (stats_Median (contents h d))))"

definition Min_val :: "movingStats \<Rightarrow> heap \<Rightarrow> failure + float64" where
  "Min_val s h =
     (case filledValues s of Inl p \<Rightarrow> Inl p | Inr d \<Rightarrow> Inr (or_zero (stats_Min (contents h d))))"

definition Max_val :: "movingStats \<Rightarrow> heap \<Rightarrow> failure + float64" where
  "Max_val s h =
     (case filledValues s of Inl p \<Rightarrow> Inl p | Inr d \<Rightarrow> Inr (or_zero (stats_Max (contents h d))))"

text \<open>
  The two escape hatches hand the live slice itself to the callback. A callback is a
  function of the elements it is shown: the interface forbids it to write to the slice or
  to call \<open>Add\<close>, and such a callback is outside this model.
\<close>

definition UnsafeDoStat ::
  "(float64 list \<Rightarrow> float64 \<times> error option) \<Rightarrow> movingStats \<Rightarrow> heap \<Rightarrow>
   failure + (float64 \<times> error option)" where
  "UnsafeDoStat f s h =
     (case filledValues s of Inl p \<Rightarrow> Inl p | Inr d \<Rightarrow> Inr (f (contents h d)))"

definition UnsafeDo ::
  "(float64 list \<Rightarrow> error option) \<Rightarrow> movingStats \<Rightarrow> heap \<Rightarrow> failure + error option" where
  "UnsafeDo f s h =
     (case filledValues s of Inl p \<Rightarrow> Inl p | Inr d \<Rightarrow> Inr (f (contents h d)))"

section \<open>The concurrency wrapper, run by one thread\<close>

text \<open>
  A \<open>sync.RWMutex\<close> as one thread sees it: whether a writer holds it and how many
  readers do. An acquisition that would have to wait can never be granted, since no other
  thread exists to release the lock; the run-time reports it as a deadlock.
\<close>

record RWMutex =
  writer :: bool
  readers :: nat

definition Lock :: "RWMutex \<Rightarrow> failure + RWMutex" where
  "Lock m = (if writer m \<or> 0 < readers m then Inl Deadlock else Inr (m\<lparr>writer := True\<rparr>))"

definition Unlock :: "RWMutex \<Rightarrow> failure + RWMutex" where
  "Unlock m = (if writer m then Inr (m\<lparr>writer := False\<rparr>) else Inl UnlockOfUnlockedMutex)"

definition RLock :: "RWMutex \<Rightarrow> failure + RWMutex" where
  "RLock m = (if writer m then Inl Deadlock else Inr (m\<lparr>readers := readers m + 1\<rparr>))"

definition RUnlock :: "RWMutex \<Rightarrow> failure + RWMutex" where
  "RUnlock m =
     (if 0 < readers m then Inr (m\<lparr>readers := readers m - 1\<rparr>) else Inl UnlockOfUnlockedMutex)"

record concurrentMovingStats =
  ma :: movingStats
  mux :: RWMutex

definition NewConcurrent :: "Options \<Rightarrow> heap \<Rightarrow> failure + (concurrentMovingStats \<times> heap)" where
  "NewConcurrent opts h =
     (case New opts h of
        Inl p \<Rightarrow> Inl p
      | Inr (s, h') \<Rightarrow> Inr (\<lparr>ma = s, mux = \<lparr>writer = False, readers = 0\<rparr>\<rparr>, h'))"

text \<open>
  \<open>c.mux.RLock(); defer c.mux.RUnlock(); return body\<close>: the deferred unlock runs whether
  the body returns or panics; a panic of the body then goes on to the caller. The body
  does not touch the lock, so the unlock is written before the body's result is taken
  apart. \<open>Add\<close> does the same with \<open>Lock\<close> and \<open>Unlock\<close>.
\<close>

definition with_RLock :: "concurrentMovingStats \<Rightarrow> failure + 'a \<Rightarrow> failure + ('a \<times> concurrentMovingStats)" where
  "with_RLock c body =
     (case RLock (mux c) of
        Inl p \<Rightarrow> Inl p
      | Inr m \<Rightarrow>
          (case RUnlock m of
             Inl p \<Rightarrow> Inl p
           | Inr m' \<Rightarrow>
               (case body of Inl p \<Rightarrow> Inl p | Inr r \<Rightarrow> Inr (r, c\<lparr>mux := m'\<rparr>))))"

definition concurrent_Add ::
  "float64 list \<Rightarrow> concurrentMovingStats \<Rightarrow> heap \<Rightarrow> failure + (concurrentMovingStats \<times> heap)" where
  "concurrent_Add vals c h =
     (case Lock (mux c) of
        Inl p \<Rightarrow> Inl p
      | Inr m \<Rightarrow>
          (case Unlock m of
             Inl p \<Rightarrow> Inl p
           | Inr m' \<Rightarrow>
               (case Add vals (ma c) h of
                  Inl p \<Rightarrow> Inl p
                | Inr (s', h') \<Rightarrow> Inr (c\<lparr>ma := s', mux := m'\<rparr>, h'))))"

definition concurrent_Window :: "concurrentMovingStats \<Rightarrow> failure + (int \<times> concurrentMovingStats)" where
  "concurrent_Window c = with_RLock c (Inr (Window_of (ma c)))"

definition concurrent_SlotsFilled :: "concurrentMovingStats \<Rightarrow> failure + (bool \<times> concurrentMovingStats)" where
  "concurrent_SlotsFilled c = with_RLock c (Inr (SlotsFilled (ma c)))"

definition concurrent_Values ::
  "concurrentMovingStats \<Rightarrow> heap \<Rightarrow> failure + ((slice \<times> heap) \<times> concurrentMovingStats)" where
  "concurrent_Values c h = with_RLock c (Values (ma c) h)"

definition concurrent_Count :: "concurrentMovingStats \<Rightarrow> failure + (int \<times> concurrentMovingStats)" where
  "concurrent_Count c = with_RLock c (Count (ma c))"

definition concurrent_Avg :: "concurrentMovingStats \<Rightarrow> heap \<Rightarrow> failure + (float64 \<times> concurrentMovingStats)" where
  "concurrent_Avg c h = with_RLock c (Avg (ma c) h)"

definition concurrent_Median :: "concurrentMovingStats \<Rightarrow> heap \<Rightarrow> failure + (float64 \<times> concurrentMovingStats)" where
  "concurrent_Median c h = with_RLock c (Median (ma c) h)"

definition concurrent_Min :: "concurrentMovingStats \<Rightarrow> heap \<Rightarrow> failure + (float64 \<times> concurrentMovingStats)" where
  "concurrent_Min c h = with_RLock c (Min_val (ma c) h)"

definition concurrent_Max :: "concurrentMovingStats \<Rightarrow> heap \<Rightarrow> failure + (float64 \<times> concurrentMovingStats)" where
  "concurrent_Max c h = with_RLock c (Max_val (ma c) h)"

definition concurrent_UnsafeDoStat ::
  "(float64 list \<Rightarrow> float64 \<times> error option) \<Rightarrow> concurrentMovingStats \<Rightarrow> heap \<Rightarrow>
   failure + ((float64 \<times> error option) \<times> concurrentMovingStats)" where
  "concurrent_UnsafeDoStat f c h = with_RLock c (UnsafeDoStat f (ma c) h)"

definition concurrent_UnsafeDo ::
  "(float64 list \<Rightarrow> error option) \<Rightarrow> concurrentMovingStats \<Rightarrow> heap \<Rightarrow>
   failure + (error option \<times> concurrentMovingStats)" where
  "concurrent_UnsafeDo f c h = with_RLock c (UnsafeDo f (ma c) h)"

section \<open>Programs over the interface\<close>

text \<open>
  The method set of the \<open>MovingStats\<close> interface, as calls a client makes, and what each
  call hands back. A program is a list of calls made one after the other by one thread; it
  ends at the first call that fails.
\<close>

datatype call =
    CallAdd "float64 list"
  | CallWindow
  | CallSlotsFilled
  | CallValues
  | CallCount
  | CallAvg
  | CallMedian
  | CallMin
  | CallMax
  | CallUnsafeDoStat "float64 list \<Rightarrow> float64 \<times> error option"
  | CallUnsafeDo "float64 list \<Rightarrow> error option"

datatype ret =
    RetNothing
  | RetInt int
  | RetBool bool
  | RetData slice
  | RetFloat float64
  | RetStat "float64 \<times> error option"
  | RetErr "error option"

definition returning :: "('a \<Rightarrow> ret) \<Rightarrow> 'st \<Rightarrow> heap \<Rightarrow> failure + 'a \<Rightarrow> failure + (ret \<times> 'st \<times> heap)" where
  "returning k st h r = (case r of Inl p \<Rightarrow> Inl p | Inr x \<Rightarrow> Inr (k x, st, h))"

fun exec :: "call \<Rightarrow> movingStats \<Rightarrow> heap \<Rightarrow> failure + (ret \<times> movingStats \<times> heap)" where
  "exec (CallAdd vals) s h =
     (case Add vals s h of Inl p \<Rightarrow> Inl p | Inr (s', h') \<Rightarrow> Inr (RetNothing, s', h'))"
| "exec CallWindow s h = Inr (RetInt (Window_of s), s, h)"
| "exec CallSlotsFilled s h = Inr (RetBool (SlotsFilled s), s, h)"
| "exec CallValues s h =
     (case Values s h of Inl p \<Rightarrow> Inl p | Inr (d, h') \<Rightarrow> Inr (RetData d, s, h'))"
| "exec CallCount s h = returning RetInt s h (Count s)"
| "exec CallAvg s h = returning RetFloat s h (Avg s h)"
| "exec CallMedian s h = returning RetFloat s h (Median s h)"
| "exec CallMin s h = returning RetFloat s h (Min_val s h)"
| "exec CallMax s h = returning RetFloat s h (Max_val s h)"
| "exec (CallUnsafeDoStat f) s h = returning RetStat s h (UnsafeDoStat f s h)"
| "exec (CallUnsafeDo f) s h = returning RetErr s h (UnsafeDo f s h)"

definition returning_c ::
  "('a \<Rightarrow> ret) \<Rightarrow> heap \<Rightarrow> failure + ('a \<times> concurrentMovingStats) \<Rightarrow>
   failure + (ret \<times> concurrentMovingStats \<times> heap)" where
  "returning_c k h r = (case r of Inl p \<Rightarrow> Inl p | Inr (x, c') \<Rightarrow> Inr (k x, c', h))"

fun concurrent_exec ::
  "call \<Rightarrow> concurrentMovingStats \<Rightarrow> heap \<Rightarrow> failure + (ret \<times> concurrentMovingStats \<times> heap)" where
  "concurrent_exec (CallAdd vals) c h =
     (case concurrent_Add vals c h of Inl p \<Rightarrow> Inl p | Inr (c', h') \<Rightarrow> Inr (RetNothing, c', h'))"
| "concurrent_exec CallWindow c h = returning_c RetInt h (concurrent_Window c)"
| "concurrent_exec CallSlotsFilled c h = returning_c RetBool h (concurrent_SlotsFilled c)"
| "concurrent_exec CallValues c h =
     (case concurrent_Values c h of
        Inl p \<Rightarrow> Inl p
      | Inr ((d, h'), c') \<Rightarrow> Inr (RetData d, c', h'))"
| "concurrent_exec CallCount c h = returning_c RetInt h (concurrent_Count c)"
| "concurrent_exec CallAvg c h = returning_c RetFloat h (concurrent_Avg c h)"
| "concurrent_exec CallMedian c h = returning_c RetFloat h (concurrent_Median c h)"
| "concurrent_exec CallMin c h = returning_c RetFloat h (concurrent_Min c h)"
| "concurrent_exec CallMax c h = returning_c RetFloat h (concurrent_Max c h)"
| "concurrent_exec (CallUnsafeDoStat f) c h = returning_c RetStat h (concurrent_UnsafeDoStat f c h)"
| "concurrent_exec (CallUnsafeDo f) c h = returning_c RetErr h (concurrent_UnsafeDo f c h)"

fun run :: "call list \<Rightarrow> movingStats \<Rightarrow> heap \<Rightarrow> failure + (ret list \<times> movingStats \<times> heap)" where
  "run [] s h = Inr ([], s, h)"
| "run (c # cs) s h =
     (case exec c s h of
        Inl p \<Rightarrow> Inl p
      | Inr (r, s', h') \<Rightarrow>
          (case run cs s' h' of
             Inl p \<Rightarrow> Inl p
           | Inr (rs, s'', h'') \<Rightarrow> Inr (r # rs, s'', h'')))"

fun concurrent_run ::
  "call list \<Rightarrow> concurrentMovingStats \<Rightarrow> heap \<Rightarrow>
   failure + (ret list \<times> concurrentMovingStats \<times> heap)" where
  "concurrent_run [] c h = Inr ([], c, h)"
| "concurrent_run (x # xs) c h =
     (case concurrent_exec x c h of
        Inl p \<Rightarrow> Inl p
      | Inr (r, c', h') \<Rightarrow>
          (case concurrent_run xs c' h' of
             Inl p \<Rightarrow> Inl p
           | Inr (rs, c'', h'') \<Rightarrow> Inr (r # rs, c'', h'')))"

text \<open>A whole program: build the store with \<open>New\<close>, then make the calls.\<close>

definition session :: "Options \<Rightarrow> call list \<Rightarrow> heap \<Rightarrow> failure + (ret list \<times> movingStats \<times> heap)" where
  "session opts cs h = (case New opts h of Inl p \<Rightarrow> Inl p | Inr (s, h') \<Rightarrow> run cs s h')"

definition concurrent_session ::
  "Options \<Rightarrow> call list \<Rightarrow> heap \<Rightarrow> failure + (ret list \<times> concurrentMovingStats \<times> heap)" where
  "concurrent_session opts cs h =
     (case NewConcurrent opts h of Inl p \<Rightarrow> Inl p | Inr (c, h') \<Rightarrow> concurrent_run cs c h')"

section \<open>Vocabulary of the specification\<close>

text \<open>A value is accepted when neither filter drops it.\<close>

definition accepted :: "Options \<Rightarrow> float64 \<Rightarrow> bool" where
  "accepted opts v =
     (\<not> (IgnoreNanValues opts \<and> IsNaN v) \<and> \<not> (IgnoreInfValues opts \<and> IsInf v 0))"

text \<open>All values a program passes to \<open>Add\<close>, in order.\<close>

fun added :: "call list \<Rightarrow> float64 list" where
  "added [] = []"
| "added (CallAdd vals # cs) = vals @ added cs"
| "added (c # cs) = added cs"

text \<open>The live slice: what \<open>filledValues\<close> shows of the buffer.\<close>

definition live :: "movingStats \<Rightarrow> heap \<Rightarrow> failure + float64 list" where
  "live s h = (case filledValues s of Inl p \<Rightarrow> Inl p | Inr d \<Rightarrow> Inr (contents h d))"

text \<open>The read-only calls that take no callback.\<close>

fun is_read :: "call \<Rightarrow> bool" where
  "is_read (CallAdd vals) = False"
| "is_read (CallUnsafeDoStat f) = False"
| "is_read (CallUnsafeDo f) = False"
| "is_read c = True"

text \<open>What a caller sees of a result: of a returned slice, its elements.\<close>

fun seen :: "heap \<Rightarrow> ret \<Rightarrow> ret + float64 list" where
  "seen h (RetData d) = Inr (contents h d)"
| "seen h r = Inl r"

section \<open>Invariants\<close>

text \<open>
  What holds of a store and the heap after \<open>New\<close> and any calls: the buffer is an array of
  \<open>window\<close> cells that the slice covers wholly, and the cursor is inside it (or at 0 in
  a buffer of no cells).
\<close>

definition store_ok :: "movingStats \<Rightarrow> heap \<Rightarrow> bool" where
  "store_ok s h =
     ((case ptr (values_buf s) of
         None \<Rightarrow> False
       | Some a \<Rightarrow> a < length h \<and> length (h ! a) = nat (window s)) \<and>
      len (values_buf s) = nat (window s) \<and> cap (values_buf s) = nat (window s) \<and>
      0 \<le> window s \<and> 0 \<le> valPos s \<and>
      (valPos s < window s \<or> (window s = 0 \<and> valPos s = 0)) \<and>
      (slotsFilled s \<longrightarrow> 1 \<le> window s))"

text \<open>
  The buffer read in ring order, oldest value first: from the cursor round to the cursor
  once the store is full, and up to the cursor before.
\<close>

definition ring_view :: "movingStats \<Rightarrow> heap \<Rightarrow> float64 list" where
  "ring_view s h =
     (let B = contents h (values_buf s); p = nat (valPos s)
      in if slotsFilled s then drop p B @ take p B else take p B)"

text \<open>
  The store holds the accepted values \<open>acc\<close>: it is full when there were at least
  \<open>window\<close> of them, and the ring is their last \<open>window\<close>.
\<close>

definition ring_ok :: "float64 list \<Rightarrow> movingStats \<Rightarrow> heap \<Rightarrow> bool" where
  "ring_ok acc s h =
     (store_ok s h \<and>
      (slotsFilled s \<longleftrightarrow> 1 \<le> window s \<and> nat (window s) \<le> length acc) \<and>
      (\<not> slotsFilled s \<longrightarrow> valPos s = int (length acc)) \<and>
      ring_view s h = drop (length acc - nat (window s)) acc)"

text \<open>The fields that \<open>New\<close> takes from the options; no method assigns them.\<close>

definition built :: "Options \<Rightarrow> movingStats \<Rightarrow> bool" where
  "built opts s =
     (window s = Window opts \<and> ignoreNanValues s = IgnoreNanValues opts \<and>
      ignoreInfValues s = IgnoreInfValues opts)"

text \<open>The number of live values, read off the fields.\<close>

definition live_count :: "movingStats \<Rightarrow> int" where
  "live_count s = (if slotsFilled s then window s else valPos s)"

text \<open>What the caller sees of one call, and of a whole program.\<close>

definition observed :: "failure + (ret \<times> 'st \<times> heap) \<Rightarrow> failure + (ret + float64 list)" where
  "observed x = (case x of Inl p \<Rightarrow> Inl p | Inr (r, st, h) \<Rightarrow> Inr (seen h r))"

definition outcome :: "failure + (ret list \<times> 'st \<times> heap) \<Rightarrow> failure + (ret + float64 list) list" where
  "outcome x = (case x of Inl p \<Rightarrow> Inl p | Inr (rs, st, h) \<Rightarrow> Inr (map (seen h) rs))"

section \<open>The ring step\<close>

lemma rotate_step:
  assumes "length B = w" "p < w"
  shows "drop ((p + 1) mod w) (B[p := v]) @ take ((p + 1) mod w) (B[p := v])
         = tl (drop p B @ take p B) @ [v]"
proof (cases "p + 1 = w")
  case True
  then have "(p + 1) mod w = 0" by simp
  moreover have "B[p := v] = take p B @ [v]"
    using assms True by (simp add: list_eq_iff_nth_eq nth_list_update nth_append)
  moreover have "drop p B = [B ! p]"
    using assms True by (metis Cons_nth_drop_Suc Suc_eq_plus1 drop_all order_refl)
  ultimately show ?thesis by simp
next
  case False
  then have lt: "p + 1 < w" using assms by simp
  then have m: "(p + 1) mod w = p + 1" by simp
  have d: "drop (p + 1) (B[p := v]) = drop (p + 1) B" by simp
  have t: "take (p + 1) (B[p := v]) = take p B @ [v]"
    using assms lt by (simp add: take_Suc_conv_app_nth)
  have "drop p B = B ! p # drop (p + 1) B"
    using assms by (simp add: Cons_nth_drop_Suc)
  then show ?thesis using m d t by simp
qed

lemma fill_step:
  assumes "length B = w" "p < w"
  shows "take (p + 1) (B[p := v]) = take p B @ [v]"
  using assms by (simp add: take_Suc_conv_app_nth)

lemma drop_last_window:
  assumes "w \<le> length acc" "1 \<le> w"
  shows "drop (length (acc @ [v]) - w) (acc @ [v]) = tl (drop (length acc - w) acc) @ [v]"
proof -
  have "length (acc @ [v]) - w = Suc (length acc - w)" using assms by simp
  then show ?thesis using assms by (simp add: drop_Suc tl_drop)
qed


lemma store_okD:
  assumes "store_ok s h"
  obtains a where "ptr (values_buf s) = Some a" "a < length h" "length (h ! a) = nat (window s)"
    "len (values_buf s) = nat (window s)" "cap (values_buf s) = nat (window s)"
    "0 \<le> window s" "0 \<le> valPos s" "valPos s < window s \<or> (window s = 0 \<and> valPos s = 0)"
    "slotsFilled s \<longrightarrow> 1 \<le> window s"
  using assms unfolding store_ok_def by (auto split: option.splits)

lemma contents_buf:
  assumes "store_ok s h" "ptr (values_buf s) = Some a"
  shows "contents h (values_buf s) = h ! a"
  using assms unfolding store_ok_def contents_def by (auto split: option.splits)

lemma Add_store_eq:
  assumes ok: "store_ok s h" and w: "1 \<le> window s" and a: "ptr (values_buf s) = Some a"
  shows "Add_store v s h =
           Inr (s\<lparr>valPos := (valPos s + 1) mod window s,
                  slotsFilled := slotsFilled s \<or> (valPos s + 1) mod window s = 0\<rparr>,
                h[a := (h ! a)[nat (valPos s) := v]])"
proof -
  from ok obtain a' where f: "ptr (values_buf s) = Some a'"
      "len (values_buf s) = nat (window s)" "0 \<le> valPos s"
      "valPos s < window s \<or> (window s = 0 \<and> valPos s = 0)"
    by (rule store_okD)
  from f w have lt: "valPos s < window s" by auto
  have set: "slice_set (values_buf s) (valPos s) v h = Inr (h[a := (h ! a)[nat (valPos s) := v]])"
    using f lt a by (simp add: slice_set_def)
  have rem: "go_rem (valPos s + 1) (window s) = Inr ((valPos s + 1) mod window s)"
    using f w by (simp add: go_rem_def)
  show ?thesis
    unfolding Add_store_def set rem by (cases "slotsFilled s") (auto simp: Let_def)
qed

lemma store_ok_Add_store:
  assumes ok: "store_ok s h" and w: "1 \<le> window s" and a: "ptr (values_buf s) = Some a"
  shows "store_ok (s\<lparr>valPos := (valPos s + 1) mod window s,
                  slotsFilled := slotsFilled s \<or> (valPos s + 1) mod window s = 0\<rparr>)
                (h[a := (h ! a)[nat (valPos s) := v]])"
  using assms unfolding store_ok_def by (auto split: option.splits)

lemma ring_ok_Add_store:
  assumes r: "ring_ok acc s h" and w: "1 \<le> window s" and a: "ptr (values_buf s) = Some a"
  shows "ring_ok (acc @ [v])
           (s\<lparr>valPos := (valPos s + 1) mod window s,
              slotsFilled := slotsFilled s \<or> (valPos s + 1) mod window s = 0\<rparr>)
           (h[a := (h ! a)[nat (valPos s) := v]])"
    (is "ring_ok _ ?s' ?h'")
proof -
  from r have ok: "store_ok s h" by (simp add: ring_ok_def)
  from ok obtain a' where f: "ptr (values_buf s) = Some a'" "a' < length h"
      "length (h ! a') = nat (window s)"
      "len (values_buf s) = nat (window s)" "0 \<le> valPos s"
      "valPos s < window s \<or> (window s = 0 \<and> valPos s = 0)"
    by (rule store_okD)
  from f a have aa: "a' = a" by simp
  from f w have lt: "valPos s < window s" by auto
  define B where "B = h ! a"
  define p where "p = nat (valPos s)"
  define W where "W = nat (window s)"
  have lenB: "length B = W" using f aa by (simp add: B_def W_def)
  have pW: "p < W" using lt f by (simp add: p_def W_def)
  have W1: "1 \<le> W" using w by (simp add: W_def)
  have ok': "store_ok ?s' ?h'" by (rule store_ok_Add_store [OF ok w a])
  have c: "contents h (values_buf s) = B" using contents_buf [OF ok a] by (simp add: B_def)
  have c': "contents ?h' (values_buf ?s') = B[p := v]"
    using contents_buf [OF ok', of a] a f aa by (simp add: B_def p_def)
  have pmod: "nat ((valPos s + 1) mod window s) = (p + 1) mod W"
    using f w by (simp add: p_def W_def nat_mod_distrib nat_add_distrib)
  have z: "(valPos s + 1) mod window s = 0 \<longleftrightarrow> p + 1 = W"
  proof
    assume "(valPos s + 1) mod window s = 0"
    then have "(p + 1) mod W = 0" using pmod by simp
    then show "p + 1 = W" using pW by (metis Suc_eq_plus1 Suc_lessI mod_less less_numeral_extra(3) add_is_0 zero_neq_one)
  next
    assume "p + 1 = W"
    then have "valPos s + 1 = window s" using f w by (simp add: p_def W_def)
    then show "(valPos s + 1) mod window s = 0" by simp
  qed
  have v: "ring_view s h = drop (length acc - W) acc"
    and fl: "slotsFilled s \<longleftrightarrow> W \<le> length acc"
    and np: "\<not> slotsFilled s \<longrightarrow> p = length acc"
    using r w by (auto simp: ring_ok_def W_def p_def)
  show ?thesis
  proof (cases "slotsFilled s")
    case True
    then have v1: "drop p B @ take p B = drop (length acc - W) acc"
      using v c by (simp add: ring_view_def Let_def p_def)
    have "ring_view ?s' ?h' = drop ((p + 1) mod W) (B[p := v]) @ take ((p + 1) mod W) (B[p := v])"
      using True c' pmod by (simp add: ring_view_def Let_def)
    also have "\<dots> = tl (drop p B @ take p B) @ [v]" by (rule rotate_step [OF lenB pW])
    also have "\<dots> = drop (length (acc @ [v]) - W) (acc @ [v])"
      using v1 drop_last_window [of W acc v] True fl W1 by simp
    finally have "ring_view ?s' ?h' = drop (length (acc @ [v]) - W) (acc @ [v])" .
    then show ?thesis using ok' True fl w by (simp add: ring_ok_def W_def)
  next
    case False
    then have pn: "p = length acc" and nW: "length acc < W" using np fl by auto
    from False have v1: "take p B = acc" using v c nW by (simp add: ring_view_def Let_def p_def)
    have t: "take (p + 1) (B[p := v]) = acc @ [v]" using fill_step [OF lenB pW] v1 by simp
    show ?thesis
    proof (cases "p + 1 = W")
      case True
      then have "ring_view ?s' ?h' = B[p := v]" using z c' by (simp add: ring_view_def Let_def)
      also have "\<dots> = acc @ [v]" using t True lenB by simp
      finally have "ring_view ?s' ?h' = drop (length (acc @ [v]) - W) (acc @ [v])"
        using True pn by simp
      then show ?thesis using ok' False True z pn w by (simp add: ring_ok_def W_def)
    next
      case F2: False
      then have lt2: "p + 1 < W" using pW by simp
      then have m: "(p + 1) mod W = p + 1" by simp
      have "ring_view ?s' ?h' = take (p + 1) (B[p := v])"
        using False F2 z c' pmod m by (simp add: ring_view_def Let_def)
      then have "ring_view ?s' ?h' = drop (length (acc @ [v]) - W) (acc @ [v])"
        using t lt2 pn by simp
      moreover have "(valPos s + 1) mod window s = int (length (acc @ [v]))"
        using pmod m pn f w lt2 by (simp add: p_def W_def)
      ultimately show ?thesis using ok' False F2 z pn lt2 w
        by (simp add: ring_ok_def W_def)
    qed
  qed
qed

section \<open>New and Add keep the ring\<close>

lemma New_eq:
  "New opts h =
     (if Window opts < 0 then Inl MakeSliceLenOutOfRange
      else Inr (\<lparr>window = Window opts,
                 values_buf = \<lparr>ptr = Some (length h), len = nat (Window opts), cap = nat (Window opts)\<rparr>,
                 valPos = 0, slotsFilled = False,
                 ignoreNanValues = IgnoreNanValues opts,
                 ignoreInfValues = IgnoreInfValues opts\<rparr>,
                h @ [replicate (nat (Window opts)) (Finite 0)]))"
  by (simp add: New_def make_slice_def)

lemma New_ring_ok:
  assumes "New opts h = Inr (s, h')"
  shows "ring_ok [] s h'" and "built opts s" and "0 \<le> Window opts"
  using assms
  by (auto simp: New_eq ring_ok_def store_ok_def built_def ring_view_def Let_def contents_def
      split: if_splits)

lemma Add_store_empty_window:
  assumes "store_ok s h" "window s = 0"
  shows "Add_store v s h = Inl IndexOutOfRange"
  using assms by (auto simp: store_ok_def Add_store_def slice_set_def split: option.splits)

lemma Add_step:
  assumes r: "ring_ok acc s h" and w: "1 \<le> window s" and b: "built opts s"
  shows "\<exists>s' h'. Add_store v s h = Inr (s', h') \<and> ring_ok (acc @ [v]) s' h' \<and> built opts s' \<and>
           values_buf s' = values_buf s \<and> length h' = length h"
proof -
  from r have ok: "store_ok s h" by (simp add: ring_ok_def)
  then obtain a where a: "ptr (values_buf s) = Some a" by (rule store_okD)
  show ?thesis
    using Add_store_eq [OF ok w a, of v] ring_ok_Add_store [OF r w a, of v] b
    by (simp add: built_def)
qed

lemma Add_ring_ok:
  assumes "ring_ok acc s h" "1 \<le> window s" "built opts s"
  shows "\<exists>s' h'. Add vals s h = Inr (s', h') \<and>
           ring_ok (acc @ filter (accepted opts) vals) s' h' \<and> built opts s' \<and>
           values_buf s' = values_buf s \<and> length h' = length h"
  using assms
proof (induction vals arbitrary: acc s h)
  case Nil
  then show ?case by simp
next
  case (Cons v vals)
  show ?case
  proof (cases "accepted opts v")
    case False
    then have "Add (v # vals) s h = Add vals s h"
      using Cons.prems(3) by (auto simp: accepted_def built_def)
    then show ?thesis using Cons.IH [OF Cons.prems] False by simp
  next
    case True
    from Add_step [OF Cons.prems, of v] obtain s1 h1 where
      st: "Add_store v s h = Inr (s1, h1)" and r1: "ring_ok (acc @ [v]) s1 h1"
      and b1: "built opts s1" and v1: "values_buf s1 = values_buf s" and l1: "length h1 = length h"
      by blast
    have w1: "1 \<le> window s1" using b1 Cons.prems(2,3) by (simp add: built_def)
    have "Add (v # vals) s h = Add vals s1 h1"
      using True st Cons.prems(3) by (auto simp: accepted_def built_def)
    then show ?thesis using Cons.IH [OF r1 w1 b1] True v1 l1 by simp
  qed
qed

lemma Add_empty_window:
  assumes "store_ok s h" "window s = 0" "built opts s" "Add vals s h = Inr (s', h')"
  shows "s' = s \<and> h' = h \<and> filter (accepted opts) vals = []"
  using assms
proof (induction vals)
  case Nil
  then show ?case by simp
next
  case (Cons v vals)
  show ?case
  proof (cases "accepted opts v")
    case False
    then have "Add (v # vals) s h = Add vals s h"
      using Cons.prems(3) by (auto simp: accepted_def built_def)
    then show ?thesis using Cons False by simp
  next
    case True
    then have "Add (v # vals) s h = Inl IndexOutOfRange"
      using Add_store_empty_window [OF Cons.prems(1,2), of v] Cons.prems(3)
      by (auto simp: accepted_def built_def)
    then show ?thesis using Cons.prems(4) by simp
  qed
qed

lemma Add_ring_ok_cond:
  assumes "ring_ok acc s h" "built opts s" "Add vals s h = Inr (s', h')"
  shows "ring_ok (acc @ filter (accepted opts) vals) s' h' \<and> built opts s' \<and>
           values_buf s' = values_buf s \<and> length h' = length h"
proof (cases "1 \<le> window s")
  case True
  then show ?thesis using Add_ring_ok [OF assms(1) True assms(2), of vals] assms(3) by auto
next
  case False
  from assms(1) have ok: "store_ok s h" by (simp add: ring_ok_def)
  then have "window s = 0" using False by (auto simp: store_ok_def)
  then show ?thesis using Add_empty_window [OF ok _ assms(2,3)] assms(1,2) by simp
qed
section \<open>The read operations\<close>

lemma filledValues_eq:
  assumes "store_ok s h"
  shows "filledValues s =
           Inr (if \<not> slotsFilled s \<and> valPos s = 0 then nil_slice
                else (values_buf s)\<lparr>len := nat (live_count s)\<rparr>)"
  using assms
  by (auto simp: store_ok_def filledValues_def slice_upto_def live_count_def Let_def
      split: option.splits)

lemma live_eq:
  assumes "store_ok s h"
  shows "live s h = Inr (take (nat (live_count s)) (contents h (values_buf s)))"
  using assms
  by (auto simp: live_def filledValues_eq live_count_def nil_slice_def contents_def store_ok_def
      split: option.splits)

lemma Count_eq:
  assumes "store_ok s h"
  shows "Count s = Inr (live_count s)"
  using assms
  by (auto simp: Count_def filledValues_eq live_count_def nil_slice_def store_ok_def)

lemma Avg_live:
  "Avg s h = (case live s h of Inl p \<Rightarrow> Inl p | Inr xs \<Rightarrow> Inr (or_zero (stats_Mean xs)))"
  by (simp add: Avg_def live_def split: sum.splits)

lemma Median_live:
  "Median s h = (case live s h of Inl p \<Rightarrow> Inl p | Inr xs \<Rightarrow> Inr (or_zero (stats_Median xs)))"
  by (simp add: Median_def live_def split: sum.splits)

lemma Min_live:
  "Min_val s h = (case live s h of Inl p \<Rightarrow> Inl p | Inr xs \<Rightarrow> Inr (or_zero (stats_Min xs)))"
  by (simp add: Min_val_def live_def split: sum.splits)

lemma Max_live:
  "Max_val s h = (case live s h of Inl p \<Rightarrow> Inl p | Inr xs \<Rightarrow> Inr (or_zero (stats_Max xs)))"
  by (simp add: Max_val_def live_def split: sum.splits)

lemma UnsafeDoStat_live:
  "UnsafeDoStat f s h = (case live s h of Inl p \<Rightarrow> Inl p | Inr xs \<Rightarrow> Inr (f xs))"
  by (simp add: UnsafeDoStat_def live_def split: sum.splits)

lemma UnsafeDo_live:
  "UnsafeDo f s h = (case live s h of Inl p \<Rightarrow> Inl p | Inr xs \<Rightarrow> Inr (f xs))"
  by (simp add: UnsafeDo_def live_def split: sum.splits)

lemma contents_append:
  assumes "ptr d = Some a" "a < length h"
  shows "contents (h @ hs) d = contents h d"
  using assms by (simp add: contents_def nth_append)

lemma contents_nil: "contents h nil_slice = []"
  by (simp add: contents_def nil_slice_def)

lemma filledValues_len:
  assumes "store_ok s h" "filledValues s = Inr d"
  shows "length (contents h d) = len d"
  using assms
  by (auto simp: filledValues_eq contents_def nil_slice_def store_ok_def live_count_def
      split: if_splits option.splits)

lemma filledValues_append:
  assumes "store_ok s h" "filledValues s = Inr d"
  shows "contents (h @ hs) d = contents h d"
  using assms
  by (auto simp: filledValues_eq contents_def nil_slice_def store_ok_def nth_append
      split: if_splits option.splits)

lemma Values_eq:
  assumes ok: "store_ok s h" and l: "live s h = Inr xs"
  shows "Values s h = Inr (\<lparr>ptr = Some (length h), len = length xs, cap = length xs\<rparr>, h @ [xs])"
proof -
  from l obtain d where d: "filledValues s = Inr d" and xs: "xs = contents h d"
    by (auto simp: live_def split: sum.splits)
  have n: "len d = length xs" using filledValues_len [OF ok d] xs by simp
  have c: "contents (h @ [replicate (length xs) (Finite 0)]) d = xs"
    using filledValues_append [OF ok d] xs by simp
  show ?thesis
    unfolding Values_def d
    by (simp add: make_slice_def copy_slice_def n c)
qed

lemma store_ok_append:
  assumes "store_ok s h"
  shows "store_ok s (h @ hs)"
  using assms by (auto simp: store_ok_def nth_append split: option.splits)

lemma ring_view_append:
  assumes "store_ok s h"
  shows "ring_view s (h @ hs) = ring_view s h"
proof -
  from assms obtain a where "ptr (values_buf s) = Some a" "a < length h" by (rule store_okD)
  then have "contents (h @ hs) (values_buf s) = contents h (values_buf s)"
    by (rule contents_append)
  then show ?thesis by (simp add: ring_view_def)
qed

lemma ring_ok_append:
  assumes "ring_ok acc s h"
  shows "ring_ok acc s (h @ hs)"
  using assms by (simp add: ring_ok_def store_ok_append ring_view_append)
section \<open>Calls and programs\<close>

lemma live_total:
  assumes "store_ok s h"
  shows "\<exists>xs. live s h = Inr xs"
  using live_eq [OF assms] by simp

lemma exec_read_eq:
  assumes ok: "store_ok s h" and l: "live s h = Inr xs"
  shows "exec CallWindow s h = Inr (RetInt (window s), s, h)"
    and "exec CallSlotsFilled s h = Inr (RetBool (slotsFilled s), s, h)"
    and "exec CallValues s h =
           Inr (RetData \<lparr>ptr = Some (length h), len = length xs, cap = length xs\<rparr>, s, h @ [xs])"
    and "exec CallCount s h = Inr (RetInt (live_count s), s, h)"
    and "exec CallAvg s h = Inr (RetFloat (or_zero (stats_Mean xs)), s, h)"
    and "exec CallMedian s h = Inr (RetFloat (or_zero (stats_Median xs)), s, h)"
    and "exec CallMin s h = Inr (RetFloat (or_zero (stats_Min xs)), s, h)"
    and "exec CallMax s h = Inr (RetFloat (or_zero (stats_Max xs)), s, h)"
    and "exec (CallUnsafeDoStat f) s h = Inr (RetStat (f xs), s, h)"
    and "exec (CallUnsafeDo g) s h = Inr (RetErr (g xs), s, h)"
  using Values_eq [OF ok l] Count_eq [OF ok] l
  by (simp_all add: returning_def Window_of_def SlotsFilled_def Avg_live Median_live Min_live
      Max_live UnsafeDoStat_live UnsafeDo_live)

lemma exec_not_Add:
  assumes ok: "store_ok s h" and c: "\<forall>vals. c \<noteq> CallAdd vals"
  shows "\<exists>r hs. exec c s h = Inr (r, s, h @ hs)"
proof -
  from live_total [OF ok] obtain xs where l: "live s h = Inr xs" ..
  note e = exec_read_eq [OF ok l]
  show ?thesis
  proof (cases c)
    case (CallAdd vals)
    then show ?thesis using c by simp
  next
    case CallValues
    then show ?thesis using e(3) by blast
  next
    case CallWindow
    then show ?thesis using e(1) by (metis append_Nil2)
  next
    case CallSlotsFilled
    then show ?thesis using e(2) by (metis append_Nil2)
  next
    case CallCount
    then show ?thesis using e(4) by (metis append_Nil2)
  next
    case CallAvg
    then show ?thesis using e(5) by (metis append_Nil2)
  next
    case CallMedian
    then show ?thesis using e(6) by (metis append_Nil2)
  next
    case CallMin
    then show ?thesis using e(7) by (metis append_Nil2)
  next
    case CallMax
    then show ?thesis using e(8) by (metis append_Nil2)
  next
    case (CallUnsafeDoStat f)
    then show ?thesis using e(9) by (metis append_Nil2)
  next
    case (CallUnsafeDo g)
    then show ?thesis using e(10) by (metis append_Nil2)
  qed
qed

lemma added_not_Add:
  assumes "\<forall>vals. c \<noteq> CallAdd vals"
  shows "added (c # cs) = added cs"
  using assms by (cases c) simp_all

lemma exec_ring_ok:
  assumes r: "ring_ok acc s h" and b: "built opts s" and e: "exec c s h = Inr (x, s', h')"
  shows "ring_ok (acc @ filter (accepted opts) (added [c])) s' h' \<and> built opts s' \<and>
         values_buf s' = values_buf s \<and> length h \<le> length h'"
proof (cases "\<exists>vals. c = CallAdd vals")
  case True
  then obtain vals where c: "c = CallAdd vals" ..
  from e c obtain s1 h1 where a: "Add vals s h = Inr (s1, h1)" and "s' = s1" "h' = h1"
    by (auto split: sum.splits)
  then show ?thesis using Add_ring_ok_cond [OF r b a] c by simp
next
  case False
  then have n: "\<forall>vals. c \<noteq> CallAdd vals" by simp
  from r have ok: "store_ok s h" by (simp add: ring_ok_def)
  from exec_not_Add [OF ok n] e obtain hs where "s' = s" "h' = h @ hs" by auto
  then show ?thesis using ring_ok_append [OF r, of hs] b added_not_Add [OF n, of "[]"] by simp
qed

lemma exec_total:
  assumes r: "ring_ok acc s h" and w: "1 \<le> window s" and b: "built opts s"
  shows "\<exists>x s' h'. exec c s h = Inr (x, s', h')"
proof (cases "\<exists>vals. c = CallAdd vals")
  case True
  then obtain vals where c: "c = CallAdd vals" ..
  from Add_ring_ok [OF r w b, of vals] show ?thesis using c by auto
next
  case False
  then have n: "\<forall>vals. c \<noteq> CallAdd vals" by simp
  from r have ok: "store_ok s h" by (simp add: ring_ok_def)
  from exec_not_Add [OF ok n] show ?thesis by blast
qed

lemma added_Cons: "added (c # cs) = added [c] @ added cs"
  by (cases c) simp_all

lemma run_ring_ok:
  assumes "ring_ok acc s h" "built opts s" "run cs s h = Inr (rs, s', h')"
  shows "ring_ok (acc @ filter (accepted opts) (added cs)) s' h' \<and> built opts s' \<and>
         values_buf s' = values_buf s \<and> length h \<le> length h' \<and> length rs = length cs"
  using assms
proof (induction cs arbitrary: acc s h rs)
  case Nil
  then show ?case by simp
next
  case (Cons c cs)
  from Cons.prems(3) obtain x s1 h1 rs1 where
    e: "exec c s h = Inr (x, s1, h1)" and r: "run cs s1 h1 = Inr (rs1, s', h')" and rs: "rs = x # rs1"
    by (auto split: sum.splits)
  from exec_ring_ok [OF Cons.prems(1,2) e] have
    r1: "ring_ok (acc @ filter (accepted opts) (added [c])) s1 h1" and b1: "built opts s1"
    and v1: "values_buf s1 = values_buf s" and l1: "length h \<le> length h1" by auto
  from Cons.IH [OF r1 b1 r] show ?case
    using v1 l1 rs added_Cons [of c cs] by simp
qed

lemma run_total:
  assumes "ring_ok acc s h" "1 \<le> window s" "built opts s"
  shows "\<exists>rs s' h'. run cs s h = Inr (rs, s', h')"
  using assms
proof (induction cs arbitrary: acc s h)
  case Nil
  then show ?case by simp
next
  case (Cons c cs)
  from exec_total [OF Cons.prems, of c] obtain x s1 h1 where
    e: "exec c s h = Inr (x, s1, h1)" by blast
  from exec_ring_ok [OF Cons.prems(1,3) e] have
    r1: "ring_ok (acc @ filter (accepted opts) (added [c])) s1 h1" and b1: "built opts s1" by auto
  have w1: "1 \<le> window s1" using b1 Cons.prems(2,3) by (simp add: built_def)
  from Cons.IH [OF r1 w1 b1] obtain rs s' h' where "run cs s1 h1 = Inr (rs, s', h')" by blast
  then show ?case using e by simp
qed

lemma session_ring_ok:
  assumes "session opts cs h0 = Inr (rs, s, h)"
  shows "ring_ok (filter (accepted opts) (added cs)) s h" and "built opts s"
    and "0 \<le> Window opts" and "length rs = length cs"
proof -
  from assms obtain s0 h1 where n: "New opts h0 = Inr (s0, h1)" and r: "run cs s0 h1 = Inr (rs, s, h)"
    by (auto simp: session_def split: sum.splits)
  note k = New_ring_ok [OF n]
  from run_ring_ok [OF k(1,2) r] k(3)
  show "ring_ok (filter (accepted opts) (added cs)) s h" and "built opts s"
    and "0 \<le> Window opts" and "length rs = length cs" by simp_all
qed

lemma session_total:
  assumes "1 \<le> Window opts"
  shows "\<exists>rs s h. session opts cs h0 = Inr (rs, s, h)"
proof -
  from assms obtain s0 h1 where n: "New opts h0 = Inr (s0, h1)" by (simp add: New_eq)
  note k = New_ring_ok [OF n]
  have "1 \<le> window s0" using k(2) assms by (simp add: built_def)
  from run_total [OF k(1) this k(2), of cs] show ?thesis using n by (simp add: session_def)
qed
section \<open>The window: full and partly filled\<close>

lemma live_mset:
  assumes r: "ring_ok acc s h" and l: "live s h = Inr xs"
  shows "mset xs = mset (drop (length acc - nat (window s)) acc)"
proof -
  from r have ok: "store_ok s h" by (simp add: ring_ok_def)
  from ok obtain a where a: "ptr (values_buf s) = Some a" "a < length h"
    "length (h ! a) = nat (window s)" by (rule store_okD)
  define B where "B = contents h (values_buf s)"
  have lenB: "length B = nat (window s)" using contents_buf [OF ok a(1)] a(3) by (simp add: B_def)
  have xs: "xs = take (nat (live_count s)) B" using live_eq [OF ok] l by (simp add: B_def)
  have v: "ring_view s h = drop (length acc - nat (window s)) acc" using r by (simp add: ring_ok_def)
  show ?thesis
  proof (cases "slotsFilled s")
    case True
    then have "xs = B" using xs lenB by (simp add: live_count_def)
    moreover have "mset (ring_view s h) = mset B"
    proof -
      have "mset (drop (nat (valPos s)) B @ take (nat (valPos s)) B) = mset B"
        by (metis append_take_drop_id mset_append union_commute)
      then show ?thesis using True by (simp add: ring_view_def Let_def B_def)
    qed
    ultimately show ?thesis using v by simp
  next
    case False
    then have "xs = ring_view s h" using xs by (simp add: live_count_def ring_view_def Let_def B_def)
    then show ?thesis using v by simp
  qed
qed

lemma contents_fresh:
  "contents (h @ [xs]) \<lparr>ptr = Some (length h), len = length xs, cap = n\<rparr> = xs"
  by (simp add: contents_def)

lemma ring_ok_filled:
  assumes "ring_ok acc s h" "1 \<le> window s"
  shows "slotsFilled s \<longleftrightarrow> nat (window s) \<le> length acc"
  using assms by (simp add: ring_ok_def)

lemma ring_ok_count:
  assumes "ring_ok acc s h" "1 \<le> window s"
  shows "live_count s = int (min (length acc) (nat (window s)))"
  using assms by (auto simp: ring_ok_def live_count_def)

lemma scenario_A:
  "outcome (session \<lparr>IgnoreNanValues = False, IgnoreInfValues = False, Window = 4\<rparr>
      [CallAdd [Finite 10], CallAdd [Finite 2], CallAdd [Finite 4], CallAdd [Finite 6],
       CallAdd [Finite 8], CallValues, CallAvg] h0)
   = Inr [Inl RetNothing, Inl RetNothing, Inl RetNothing, Inl RetNothing, Inl RetNothing,
          Inr [Finite 8, Finite 2, Finite 4, Finite 6], Inl (RetFloat (Finite 5))]"
  by (simp add: outcome_def session_def New_eq Add_store_def slice_set_def go_rem_def IsNaN_def
      IsInf_def Values_def filledValues_def slice_upto_def make_slice_def copy_slice_def
      contents_def returning_def Avg_def or_zero_def stats_Mean_def stats_Sum_def
      nth_append list_update_append eval_nat_numeral)
lemma Values_live:
  assumes ok: "store_ok s h" and l: "live s h = Inr xs"
  shows "\<exists>d h'. Values s h = Inr (d, h') \<and> contents h' d = xs \<and> int (len d) = int (length xs)"
  using Values_eq [OF ok l] contents_fresh [of h xs "length xs"] by simp

lemma scenario_B:
  "outcome (session \<lparr>IgnoreNanValues = False, IgnoreInfValues = False, Window = 5\<rparr>
      [CallAdd [Finite 10], CallAdd [Finite 20], CallAvg, CallCount, CallSlotsFilled] h0)
   = Inr [Inl RetNothing, Inl RetNothing, Inl (RetFloat (Finite 15)), Inl (RetInt 2),
          Inl (RetBool False)]"
  by (simp add: outcome_def session_def New_eq Add_store_def slice_set_def go_rem_def IsNaN_def
      IsInf_def filledValues_def slice_upto_def Count_def SlotsFilled_def
      contents_def returning_def Avg_def or_zero_def stats_Mean_def stats_Sum_def
      nth_append list_update_append eval_nat_numeral)

text \<open>
  C1. A store of capacity \<open>w \<ge> 1\<close> that was given more than \<open>w\<close> accepted values, over
  any calls: the program runs to its end, \<open>Count\<close> returns \<open>w\<close>, \<open>SlotsFilled\<close> returns
  true, and what \<open>Values\<close> returns is, as a multiset, the last \<open>w\<close> accepted values. With
  window 4 and the values 10, 2, 4, 6, 8 added, \<open>Values\<close> shows 8, 2, 4, 6 and \<open>Avg\<close>
  returns 5.
\<close>

theorem C1_full_window:
  assumes "1 \<le> Window opts"
    and "nat (Window opts) < length (filter (accepted opts) (added cs))"
  shows "(\<exists>rs s h. session opts cs h0 = Inr (rs, s, h) \<and>
            Count s = Inr (Window opts) \<and> SlotsFilled s \<and>
            (\<exists>d h'. Values s h = Inr (d, h') \<and>
               mset (contents h' d) =
               mset (drop (length (filter (accepted opts) (added cs)) - nat (Window opts))
                      (filter (accepted opts) (added cs))))) \<and>
         outcome (session \<lparr>IgnoreNanValues = False, IgnoreInfValues = False, Window = 4\<rparr>
            [CallAdd [Finite 10], CallAdd [Finite 2], CallAdd [Finite 4], CallAdd [Finite 6],
             CallAdd [Finite 8], CallValues, CallAvg] h0)
         = Inr [Inl RetNothing, Inl RetNothing, Inl RetNothing, Inl RetNothing, Inl RetNothing,
                Inr [Finite 8, Finite 2, Finite 4, Finite 6], Inl (RetFloat (Finite 5))]"
proof -
  define acc where "acc = filter (accepted opts) (added cs)"
  from session_total [OF assms(1)] obtain rs s h where
    se: "session opts cs h0 = Inr (rs, s, h)" by blast
  from session_ring_ok [OF se] have r: "ring_ok acc s h" and b: "built opts s"
    by (simp_all add: acc_def)
  from r have ok: "store_ok s h" by (simp add: ring_ok_def)
  have w: "1 \<le> window s" and ww: "window s = Window opts" using b assms(1) by (simp_all add: built_def)
  have f: "slotsFilled s" using ring_ok_filled [OF r w] assms(2) ww by (simp add: acc_def)
  have c: "Count s = Inr (Window opts)" using Count_eq [OF ok] f ww by (simp add: live_count_def)
  from live_total [OF ok] obtain xs where l: "live s h = Inr xs" ..
  from Values_live [OF ok l] obtain d h' where
    v: "Values s h = Inr (d, h')" and cd: "contents h' d = xs" by blast
  have "mset (contents h' d) = mset (drop (length acc - nat (Window opts)) acc)"
    using live_mset [OF r l] cd ww by simp
  then show ?thesis using se c f v scenario_A [of h0] by (auto simp: SlotsFilled_def acc_def)
qed

theorem C1_full_window_witness:
  "1 \<le> Window \<lparr>IgnoreNanValues = True, IgnoreInfValues = False, Window = 2\<rparr> \<and>
   nat (Window \<lparr>IgnoreNanValues = True, IgnoreInfValues = False, Window = 2\<rparr>)
     < length (filter (accepted \<lparr>IgnoreNanValues = True, IgnoreInfValues = False, Window = 2\<rparr>)
         (added [CallAdd [Finite 1, NaN, Finite 2], CallCount, CallAdd [Finite 3]])) \<and>
   (\<exists>rs s h. session \<lparr>IgnoreNanValues = True, IgnoreInfValues = False, Window = 2\<rparr>
        [CallAdd [Finite 1, NaN, Finite 2], CallCount, CallAdd [Finite 3]] [] = Inr (rs, s, h) \<and>
      Count s = Inr 2 \<and> SlotsFilled s \<and>
      (\<exists>d h'. Values s h = Inr (d, h') \<and> mset (contents h' d) = mset [Finite 2, Finite 3]))"
  using C1_full_window [of "\<lparr>IgnoreNanValues = True, IgnoreInfValues = False, Window = 2\<rparr>"
      "[CallAdd [Finite 1, NaN, Finite 2], CallCount, CallAdd [Finite 3]]" "[]"]
  by (simp add: accepted_def IsNaN_def IsInf_def)
lemma scenario_full:
  "outcome (session \<lparr>IgnoreNanValues = False, IgnoreInfValues = False, Window = 5\<rparr>
      [CallAdd [Finite 2], CallAdd [Finite 4], CallAdd [Finite 2], CallAdd [Finite 4],
       CallAdd [Finite 2], CallCount, CallSlotsFilled] [])
   = Inr [Inl RetNothing, Inl RetNothing, Inl RetNothing, Inl RetNothing, Inl RetNothing,
          Inl (RetInt 5), Inl (RetBool True)]"
  by (simp add: outcome_def session_def New_eq Add_store_def slice_set_def go_rem_def IsNaN_def
      IsInf_def filledValues_def slice_upto_def Count_def SlotsFilled_def returning_def)

text \<open>
  C2, as stated, fails where the number of accepted values equals the capacity: the test
  of the repository adds five values to a window of five and expects \<open>SlotsFilled\<close> to
  be true. Here five values were accepted, \<open>5 \<le> 5\<close>, and \<open>SlotsFilled\<close> returns true.
\<close>

theorem C2_counterexample:
  "length (filter (accepted \<lparr>IgnoreNanValues = False, IgnoreInfValues = False, Window = 5\<rparr>)
      (added [CallAdd [Finite 2], CallAdd [Finite 4], CallAdd [Finite 2], CallAdd [Finite 4],
              CallAdd [Finite 2], CallCount, CallSlotsFilled]))
     \<le> nat (Window \<lparr>IgnoreNanValues = False, IgnoreInfValues = False, Window = 5\<rparr>) \<and>
   outcome (session \<lparr>IgnoreNanValues = False, IgnoreInfValues = False, Window = 5\<rparr>
      [CallAdd [Finite 2], CallAdd [Finite 4], CallAdd [Finite 2], CallAdd [Finite 4],
       CallAdd [Finite 2], CallCount, CallSlotsFilled] [])
   = Inr [Inl RetNothing, Inl RetNothing, Inl RetNothing, Inl RetNothing, Inl RetNothing,
          Inl (RetInt 5), Inl (RetBool True)]"
  using scenario_full by (simp add: accepted_def IsNaN_def IsInf_def)

text \<open>
  C2, amended. A store of capacity \<open>w \<ge> 1\<close> that was given \<open>n \<le> w\<close> accepted values, over
  any calls: the program runs to its end and \<open>Count\<close> returns \<open>n\<close>; \<open>SlotsFilled\<close> returns
  false when \<open>n < w\<close> and true when \<open>n = w\<close>. With window 5 and the values 10, 20 added,
  \<open>Avg\<close> returns 15, \<open>Count\<close> returns 2 and \<open>SlotsFilled\<close> returns false.
\<close>

theorem C2_partial_window:
  assumes "1 \<le> Window opts"
    and "length (filter (accepted opts) (added cs)) \<le> nat (Window opts)"
  shows "(\<exists>rs s h. session opts cs h0 = Inr (rs, s, h) \<and>
            Count s = Inr (int (length (filter (accepted opts) (added cs)))) \<and>
            SlotsFilled s = (length (filter (accepted opts) (added cs)) = nat (Window opts))) \<and>
         outcome (session \<lparr>IgnoreNanValues = False, IgnoreInfValues = False, Window = 5\<rparr>
            [CallAdd [Finite 10], CallAdd [Finite 20], CallAvg, CallCount, CallSlotsFilled] h0)
         = Inr [Inl RetNothing, Inl RetNothing, Inl (RetFloat (Finite 15)), Inl (RetInt 2),
                Inl (RetBool False)]"
proof -
  define acc where "acc = filter (accepted opts) (added cs)"
  from session_total [OF assms(1)] obtain rs s h where
    se: "session opts cs h0 = Inr (rs, s, h)" by blast
  from session_ring_ok [OF se] have r: "ring_ok acc s h" and b: "built opts s"
    by (simp_all add: acc_def)
  from r have ok: "store_ok s h" by (simp add: ring_ok_def)
  have w: "1 \<le> window s" and ww: "window s = Window opts" using b assms(1) by (simp_all add: built_def)
  have f: "slotsFilled s = (length acc = nat (Window opts))"
    using ring_ok_filled [OF r w] assms(2) ww by (auto simp: acc_def)
  have "live_count s = int (length acc)"
    using ring_ok_count [OF r w] assms(2) ww by (simp add: acc_def min_def)
  then have c: "Count s = Inr (int (length acc))" using Count_eq [OF ok] by simp
  show ?thesis using se c f scenario_B [of h0] by (auto simp: SlotsFilled_def acc_def)
qed

theorem C2_partial_window_witness:
  "1 \<le> Window \<lparr>IgnoreNanValues = False, IgnoreInfValues = True, Window = 3\<rparr> \<and>
   length (filter (accepted \<lparr>IgnoreNanValues = False, IgnoreInfValues = True, Window = 3\<rparr>)
       (added [CallAdd [Finite 1, PosInf], CallAvg, CallAdd [NaN]]))
     \<le> nat (Window \<lparr>IgnoreNanValues = False, IgnoreInfValues = True, Window = 3\<rparr>) \<and>
   (\<exists>rs s h. session \<lparr>IgnoreNanValues = False, IgnoreInfValues = True, Window = 3\<rparr>
        [CallAdd [Finite 1, PosInf], CallAvg, CallAdd [NaN]] [] = Inr (rs, s, h) \<and>
      Count s = Inr 2 \<and> \<not> SlotsFilled s)"
  using C2_partial_window [of "\<lparr>IgnoreNanValues = False, IgnoreInfValues = True, Window = 3\<rparr>"
      "[CallAdd [Finite 1, PosInf], CallAvg, CallAdd [NaN]]" "[]"]
  by (simp add: accepted_def IsNaN_def IsInf_def)

section \<open>The empty store\<close>

lemma stats_empty:
  "or_zero (stats_Mean []) = Finite 0" "or_zero (stats_Median []) = Finite 0"
  "or_zero (stats_Min []) = Finite 0" "or_zero (stats_Max []) = Finite 0"
  by (simp_all add: or_zero_def stats_Mean_def stats_Median_def stats_Min_def stats_Max_def
      sortedCopy_def)

lemma ring_ok_empty_live:
  assumes r: "ring_ok acc s h" and l: "live s h = Inr []"
  shows "live_count s = 0" and "\<not> slotsFilled s"
proof -
  from r have ok: "store_ok s h" by (simp add: ring_ok_def)
  from ok obtain a where a: "ptr (values_buf s) = Some a" "a < length h"
    "length (h ! a) = nat (window s)" "0 \<le> valPos s"
    "valPos s < window s \<or> (window s = 0 \<and> valPos s = 0)" "slotsFilled s \<longrightarrow> 1 \<le> window s"
    by (rule store_okD)
  have "take (nat (live_count s)) (contents h (values_buf s)) = []"
    using live_eq [OF ok] l by simp
  then have "length (take (nat (live_count s)) (contents h (values_buf s))) = 0"
    by (simp only: list.size)
  then have m: "min (nat (window s)) (nat (live_count s)) = 0"
    using contents_buf [OF ok a(1)] a(3) by simp
  show "\<not> slotsFilled s" using m a(6) by (auto simp: live_count_def)
  then show "live_count s = 0" using m a(4,5) by (auto simp: live_count_def min_def split: if_splits)
qed

lemma ring_ok_no_values:
  assumes r: "ring_ok [] s h"
  shows "live s h = Inr []"
proof -
  from r have ok: "store_ok s h" by (simp add: ring_ok_def)
  have "\<not> slotsFilled s" using r by (auto simp: ring_ok_def store_ok_def)
  then have "live_count s = 0" using r by (simp add: ring_ok_def live_count_def)
  then show ?thesis using live_eq [OF ok] by simp
qed

text \<open>
  C3. On a store whose live slice is empty, at any point of any program, \<open>Avg\<close>,
  \<open>Median\<close>, \<open>Min\<close> and \<open>Max\<close> return 0 (none of them fails), \<open>Count\<close> returns 0 and
  \<open>SlotsFilled\<close> returns false. The live slice is empty as long as no value was accepted,
  so in a store fresh from \<open>New\<close>.
\<close>

theorem C3_empty_store:
  assumes "session opts cs h0 = Inr (rs, s, h)"
  shows "(live s h = Inr [] \<longrightarrow>
            Avg s h = Inr (Finite 0) \<and> Median s h = Inr (Finite 0) \<and>
            Min_val s h = Inr (Finite 0) \<and> Max_val s h = Inr (Finite 0) \<and>
            Count s = Inr 0 \<and> \<not> SlotsFilled s) \<and>
         (filter (accepted opts) (added cs) = [] \<longrightarrow> live s h = Inr [])"
proof -
  from session_ring_ok [OF assms] have r: "ring_ok (filter (accepted opts) (added cs)) s h"
    by simp
  from r have ok: "store_ok s h" by (simp add: ring_ok_def)
  have "Avg s h = Inr (Finite 0) \<and> Median s h = Inr (Finite 0) \<and>
        Min_val s h = Inr (Finite 0) \<and> Max_val s h = Inr (Finite 0) \<and>
        Count s = Inr 0 \<and> \<not> SlotsFilled s" if l: "live s h = Inr []"
    using ring_ok_empty_live [OF r l] Count_eq [OF ok] l
    by (simp add: Avg_live Median_live Min_live Max_live stats_empty SlotsFilled_def)
  moreover have "live s h = Inr []" if "filter (accepted opts) (added cs) = []"
    using r that ring_ok_no_values by simp
  ultimately show ?thesis by blast
qed

theorem C3_empty_store_witness:
  "session \<lparr>IgnoreNanValues = True, IgnoreInfValues = False, Window = 3\<rparr> [CallAdd [NaN]] []
     = Inr ([RetNothing],
            \<lparr>window = 3, values_buf = \<lparr>ptr = Some 0, len = 3, cap = 3\<rparr>, valPos = 0,
              slotsFilled = False, ignoreNanValues = True, ignoreInfValues = False\<rparr>,
            [[Finite 0, Finite 0, Finite 0]]) \<and>
   live \<lparr>window = 3, values_buf = \<lparr>ptr = Some 0, len = 3, cap = 3\<rparr>, valPos = 0,
              slotsFilled = False, ignoreNanValues = True, ignoreInfValues = False\<rparr>
        [[Finite 0, Finite 0, Finite 0]] = Inr [] \<and>
   Avg \<lparr>window = 3, values_buf = \<lparr>ptr = Some 0, len = 3, cap = 3\<rparr>, valPos = 0,
              slotsFilled = False, ignoreNanValues = True, ignoreInfValues = False\<rparr>
        [[Finite 0, Finite 0, Finite 0]] = Inr (Finite 0) \<and>
   Count \<lparr>window = 3, values_buf = \<lparr>ptr = Some 0, len = 3, cap = 3\<rparr>, valPos = 0,
              slotsFilled = False, ignoreNanValues = True, ignoreInfValues = False\<rparr> = Inr 0"
proof -
  have e: "session \<lparr>IgnoreNanValues = True, IgnoreInfValues = False, Window = 3\<rparr> [CallAdd [NaN]] []
     = Inr ([RetNothing],
            \<lparr>window = 3, values_buf = \<lparr>ptr = Some 0, len = 3, cap = 3\<rparr>, valPos = 0,
              slotsFilled = False, ignoreNanValues = True, ignoreInfValues = False\<rparr>,
            [[Finite 0, Finite 0, Finite 0]])"
    by (simp add: session_def New_eq IsNaN_def eval_nat_numeral)
  show ?thesis
    using C3_empty_store [OF e] e by (simp add: accepted_def IsNaN_def)
qed
section \<open>Filters and the order of Add\<close>

lemma Add_append:
  "Add (xs @ ys) s h = (case Add xs s h of Inl p \<Rightarrow> Inl p | Inr (s1, h1) \<Rightarrow> Add ys s1 h1)"
  by (induction xs arbitrary: s h) (auto split: sum.splits)

lemma accepted_iff:
  "accepted opts v \<longleftrightarrow>
     \<not> (IgnoreNanValues opts \<and> v = NaN) \<and> \<not> (IgnoreInfValues opts \<and> (v = PosInf \<or> v = NegInf))"
  by (auto simp: accepted_def IsNaN_def IsInf_def)

lemma Add_single:
  assumes r: "ring_ok acc s h" and w: "1 \<le> window s" and b: "built opts s"
  shows "Add [v] s h =
           (if accepted opts v
            then Inr (s\<lparr>valPos := (valPos s + 1) mod window s,
                        slotsFilled := slotsFilled s \<or> (valPos s + 1) mod window s = 0\<rparr>,
                      h[the (ptr (values_buf s)) := (h ! the (ptr (values_buf s)))[nat (valPos s) := v]])
            else Inr (s, h))"
proof -
  from r have ok: "store_ok s h" by (simp add: ring_ok_def)
  then obtain a where a: "ptr (values_buf s) = Some a" by (rule store_okD)
  show ?thesis
    using Add_store_eq [OF ok w a, of v] a b by (auto simp: accepted_def built_def)
qed

lemma live_in_accepted:
  assumes r: "ring_ok acc s h" and l: "live s h = Inr xs"
  shows "set xs \<subseteq> set acc"
proof -
  have "set xs = set (drop (length acc - nat (window s)) acc)"
    using live_mset [OF r l] by (rule mset_eq_setD)
  then show ?thesis using set_drop_subset by fastforce
qed

lemma live_has_last:
  assumes r: "ring_ok (acc @ [v]) s h" and w: "1 \<le> window s" and l: "live s h = Inr xs"
  shows "v \<in> set xs"
proof -
  have "set xs = set (drop (length (acc @ [v]) - nat (window s)) (acc @ [v]))"
    using live_mset [OF r l] by (rule mset_eq_setD)
  moreover have "length (acc @ [v]) - nat (window s) \<le> length acc" using w by simp
  ultimately show ?thesis by simp
qed

lemma Add_skip:
  assumes "built opts s" "\<not> accepted opts v"
  shows "Add [v] s h = Inr (s, h)"
  using assms by (auto simp: accepted_def built_def)

text \<open>
  C4, as stated, fails on the store that \<open>New\<close> builds for \<open>Window = 0\<close>: its buffer has
  no cells, so a value that neither filter drops is not written at the cursor; the write
  panics. With \<open>ignoreNaN\<close> unset a NaN is such a value, and it is not retained.
\<close>

theorem C4_counterexample:
  "session \<lparr>IgnoreNanValues = False, IgnoreInfValues = False, Window = 0\<rparr> [] []
     = Inr ([],
        \<lparr>window = 0, values_buf = \<lparr>ptr = Some 0, len = 0, cap = 0\<rparr>, valPos = 0,
          slotsFilled = False, ignoreNanValues = False, ignoreInfValues = False\<rparr>,
        [[]]) \<and>
   accepted \<lparr>IgnoreNanValues = False, IgnoreInfValues = False, Window = 0\<rparr> (Finite 1) \<and>
   Add [Finite 1]
        \<lparr>window = 0, values_buf = \<lparr>ptr = Some 0, len = 0, cap = 0\<rparr>, valPos = 0,
          slotsFilled = False, ignoreNanValues = False, ignoreInfValues = False\<rparr>
        [[]] = Inl IndexOutOfRange \<and>
   \<not> IgnoreNanValues \<lparr>IgnoreNanValues = False, IgnoreInfValues = False, Window = 0\<rparr> \<and>
   Add [NaN]
        \<lparr>window = 0, values_buf = \<lparr>ptr = Some 0, len = 0, cap = 0\<rparr>, valPos = 0,
          slotsFilled = False, ignoreNanValues = False, ignoreInfValues = False\<rparr>
        [[]] = Inl IndexOutOfRange"
  by (simp add: session_def New_def make_slice_def accepted_def IsNaN_def IsInf_def
      Add_store_def slice_set_def)

text \<open>
  C4, amended. At any point of any program on a store of capacity \<open>w \<ge> 1\<close>, \<open>Add\<close> takes
  its arguments in order (adding \<open>xs\<close> and \<open>ys\<close> in one call is adding \<open>xs\<close>, then \<open>ys\<close>);
  a value is skipped, leaving the store as it was, when \<open>ignoreNaN\<close> is set and it is NaN
  or \<open>ignoreInf\<close> is set and it is an infinity; any other value is written at the cursor,
  and the cursor moves on modulo \<open>w\<close>. So with \<open>ignoreNaN\<close> set, adding NaN changes
  nothing (nor \<open>Count\<close>) and \<open>Values\<close> holds no NaN; with \<open>ignoreNaN\<close> unset, NaN is in
  \<open>Values\<close> after it was added. The order, the skipping and the absence of NaN hold in a
  store of no cells as well, so only the write and the retained NaN carry \<open>w \<ge> 1\<close> below.
\<close>

theorem C4_add_filters:
  assumes "session opts cs h0 = Inr (rs, s, h)"
  shows "Add (xs @ ys) s h = (case Add xs s h of Inl p \<Rightarrow> Inl p | Inr (s1, h1) \<Rightarrow> Add ys s1 h1) \<and>
         (accepted opts v \<longleftrightarrow>
            \<not> (IgnoreNanValues opts \<and> v = NaN) \<and>
            \<not> (IgnoreInfValues opts \<and> (v = PosInf \<or> v = NegInf))) \<and>
         (\<not> accepted opts v \<longrightarrow> Add [v] s h = Inr (s, h)) \<and>
         (1 \<le> Window opts \<and> accepted opts v \<longrightarrow>
            (\<exists>a. ptr (values_buf s) = Some a \<and>
               Add [v] s h =
                 Inr (s\<lparr>valPos := (valPos s + 1) mod Window opts,
                        slotsFilled := slotsFilled s \<or> (valPos s + 1) mod Window opts = 0\<rparr>,
                      h[a := (h ! a)[nat (valPos s) := v]]))) \<and>
         (IgnoreNanValues opts \<longrightarrow>
            Add [NaN] s h = Inr (s, h) \<and>
            (\<exists>d h'. Values s h = Inr (d, h') \<and> NaN \<notin> set (contents h' d))) \<and>
         (1 \<le> Window opts \<and> \<not> IgnoreNanValues opts \<longrightarrow>
            (\<exists>s' h' d h''. Add [NaN] s h = Inr (s', h') \<and> Values s' h' = Inr (d, h'') \<and>
               NaN \<in> set (contents h'' d)))"
proof -
  define acc where "acc = filter (accepted opts) (added cs)"
  from session_ring_ok [OF assms] have r: "ring_ok acc s h" and b: "built opts s"
    by (simp_all add: acc_def)
  from r have ok: "store_ok s h" by (simp add: ring_ok_def)
  have ww: "window s = Window opts" using b by (simp add: built_def)
  from ok obtain a where a: "ptr (values_buf s) = Some a" by (rule store_okD)
  have skip: "\<not> accepted opts v \<longrightarrow> Add [v] s h = Inr (s, h)"
    using Add_skip [OF b] by blast
  have store: "1 \<le> Window opts \<and> accepted opts v \<longrightarrow>
            (\<exists>a. ptr (values_buf s) = Some a \<and>
               Add [v] s h =
                 Inr (s\<lparr>valPos := (valPos s + 1) mod Window opts,
                        slotsFilled := slotsFilled s \<or> (valPos s + 1) mod Window opts = 0\<rparr>,
                      h[a := (h ! a)[nat (valPos s) := v]]))"
  proof
    assume h: "1 \<le> Window opts \<and> accepted opts v"
    then have w: "1 \<le> window s" using ww by simp
    show "\<exists>a. ptr (values_buf s) = Some a \<and>
               Add [v] s h =
                 Inr (s\<lparr>valPos := (valPos s + 1) mod Window opts,
                        slotsFilled := slotsFilled s \<or> (valPos s + 1) mod Window opts = 0\<rparr>,
                      h[a := (h ! a)[nat (valPos s) := v]])"
      using Add_single [OF r w b, of v] h a ww by simp
  qed
  have ign: "Add [NaN] s h = Inr (s, h) \<and>
            (\<exists>d h'. Values s h = Inr (d, h') \<and> NaN \<notin> set (contents h' d))"
    if i: "IgnoreNanValues opts"
  proof -
    have n: "\<not> accepted opts NaN" using i by (simp add: accepted_iff)
    from live_total [OF ok] obtain zs where l: "live s h = Inr zs" ..
    have "NaN \<notin> set zs" using live_in_accepted [OF r l] n by (auto simp: acc_def)
    then show ?thesis using Add_skip [OF b n] Values_live [OF ok l] by auto
  qed
  have keep: "\<exists>s' h' d h''. Add [NaN] s h = Inr (s', h') \<and> Values s' h' = Inr (d, h'') \<and>
               NaN \<in> set (contents h'' d)"
    if i: "1 \<le> Window opts \<and> \<not> IgnoreNanValues opts"
  proof -
    have w: "1 \<le> window s" using i ww by simp
    have n: "accepted opts NaN" using i by (simp add: accepted_iff)
    from Add_ring_ok [OF r w b, of "[NaN]"] n obtain s' h' where
      ad: "Add [NaN] s h = Inr (s', h')" and r': "ring_ok (acc @ [NaN]) s' h'"
      and b': "built opts s'" by auto
    from r' have ok': "store_ok s' h'" by (simp add: ring_ok_def)
    have w': "1 \<le> window s'" using b' i by (simp add: built_def)
    from live_total [OF ok'] obtain zs where l: "live s' h' = Inr zs" ..
    have "NaN \<in> set zs" by (rule live_has_last [OF r' w' l])
    then show ?thesis using ad Values_live [OF ok' l] by auto
  qed
  show ?thesis using Add_append [of xs ys s h] accepted_iff [of opts v] skip store ign keep
    by blast
qed

theorem C4_add_filters_witness:
  "session \<lparr>IgnoreNanValues = True, IgnoreInfValues = True, Window = 2\<rparr> [CallAdd [Finite 1]] []
     = Inr ([RetNothing],
        \<lparr>window = 2, values_buf = \<lparr>ptr = Some 0, len = 2, cap = 2\<rparr>, valPos = 1,
          slotsFilled = False, ignoreNanValues = True, ignoreInfValues = True\<rparr>,
        [[Finite 1, Finite 0]]) \<and>
   1 \<le> Window \<lparr>IgnoreNanValues = True, IgnoreInfValues = True, Window = 2\<rparr> \<and>
   accepted \<lparr>IgnoreNanValues = True, IgnoreInfValues = True, Window = 2\<rparr> (Finite 7) \<and>
   \<not> accepted \<lparr>IgnoreNanValues = True, IgnoreInfValues = True, Window = 2\<rparr> NegInf \<and>
   IgnoreNanValues \<lparr>IgnoreNanValues = True, IgnoreInfValues = True, Window = 2\<rparr> \<and>
   Add [NaN, NegInf, Finite 7]
        \<lparr>window = 2, values_buf = \<lparr>ptr = Some 0, len = 2, cap = 2\<rparr>, valPos = 1,
          slotsFilled = False, ignoreNanValues = True, ignoreInfValues = True\<rparr>
        [[Finite 1, Finite 0]]
     = Inr (\<lparr>window = 2, values_buf = \<lparr>ptr = Some 0, len = 2, cap = 2\<rparr>, valPos = 0,
              slotsFilled = True, ignoreNanValues = True, ignoreInfValues = True\<rparr>,
            [[Finite 1, Finite 7]]) \<and>
   Add [NaN]
        \<lparr>window = 2, values_buf = \<lparr>ptr = Some 0, len = 2, cap = 2\<rparr>, valPos = 1,
          slotsFilled = False, ignoreNanValues = True, ignoreInfValues = True\<rparr>
        [[Finite 1, Finite 0]]
     = Inr (\<lparr>window = 2, values_buf = \<lparr>ptr = Some 0, len = 2, cap = 2\<rparr>, valPos = 1,
          slotsFilled = False, ignoreNanValues = True, ignoreInfValues = True\<rparr>,
            [[Finite 1, Finite 0]]) \<and>
   session \<lparr>IgnoreNanValues = False, IgnoreInfValues = False, Window = 2\<rparr> [CallAdd [Finite 1]] []
     = Inr ([RetNothing],
        \<lparr>window = 2, values_buf = \<lparr>ptr = Some 0, len = 2, cap = 2\<rparr>, valPos = 1,
          slotsFilled = False, ignoreNanValues = False, ignoreInfValues = False\<rparr>,
        [[Finite 1, Finite 0]]) \<and>
   1 \<le> Window \<lparr>IgnoreNanValues = False, IgnoreInfValues = False, Window = 2\<rparr> \<and>
   \<not> IgnoreNanValues \<lparr>IgnoreNanValues = False, IgnoreInfValues = False, Window = 2\<rparr> \<and>
   (\<exists>s' h' d h''. Add [NaN]
        \<lparr>window = 2, values_buf = \<lparr>ptr = Some 0, len = 2, cap = 2\<rparr>, valPos = 1,
          slotsFilled = False, ignoreNanValues = False, ignoreInfValues = False\<rparr>
        [[Finite 1, Finite 0]] = Inr (s', h') \<and>
      Values s' h' = Inr (d, h'') \<and> NaN \<in> set (contents h'' d))"
proof -
  have e1: "session \<lparr>IgnoreNanValues = True, IgnoreInfValues = True, Window = 2\<rparr> [CallAdd [Finite 1]] []
     = Inr ([RetNothing],
        \<lparr>window = 2, values_buf = \<lparr>ptr = Some 0, len = 2, cap = 2\<rparr>, valPos = 1,
          slotsFilled = False, ignoreNanValues = True, ignoreInfValues = True\<rparr>,
        [[Finite 1, Finite 0]])"
    by (simp add: session_def New_eq IsNaN_def IsInf_def Add_store_def slice_set_def go_rem_def
        eval_nat_numeral)
  have e2: "session \<lparr>IgnoreNanValues = False, IgnoreInfValues = False, Window = 2\<rparr> [CallAdd [Finite 1]] []
     = Inr ([RetNothing],
        \<lparr>window = 2, values_buf = \<lparr>ptr = Some 0, len = 2, cap = 2\<rparr>, valPos = 1,
          slotsFilled = False, ignoreNanValues = False, ignoreInfValues = False\<rparr>,
        [[Finite 1, Finite 0]])"
    by (simp add: session_def New_eq IsNaN_def IsInf_def Add_store_def slice_set_def go_rem_def
        eval_nat_numeral)
  have a: "accepted \<lparr>IgnoreNanValues = True, IgnoreInfValues = True, Window = 2\<rparr> (Finite 7)"
    and n: "\<not> accepted \<lparr>IgnoreNanValues = True, IgnoreInfValues = True, Window = 2\<rparr> NegInf"
    by (simp_all add: accepted_def IsNaN_def IsInf_def)
  note t1 = C4_add_filters [OF e1, of "[NaN, NegInf]" "[Finite 7]" "Finite 7"]
  note t2 = C4_add_filters [OF e2, of "[]" "[]" NaN]
  have c: "1 \<le> Window \<lparr>IgnoreNanValues = False, IgnoreInfValues = False, Window = 2\<rparr> \<and>
      \<not> IgnoreNanValues \<lparr>IgnoreNanValues = False, IgnoreInfValues = False, Window = 2\<rparr>"
    by simp
  have x: "Add ([NaN, NegInf] @ [Finite 7])
        \<lparr>window = 2, values_buf = \<lparr>ptr = Some 0, len = 2, cap = 2\<rparr>, valPos = 1,
          slotsFilled = False, ignoreNanValues = True, ignoreInfValues = True\<rparr>
        [[Finite 1, Finite 0]]
     = Inr (\<lparr>window = 2, values_buf = \<lparr>ptr = Some 0, len = 2, cap = 2\<rparr>, valPos = 0,
              slotsFilled = True, ignoreNanValues = True, ignoreInfValues = True\<rparr>,
            [[Finite 1, Finite 7]])"
    using t1 a n by (simp add: IsNaN_def IsInf_def)
  have y: "Add [NaN]
        \<lparr>window = 2, values_buf = \<lparr>ptr = Some 0, len = 2, cap = 2\<rparr>, valPos = 1,
          slotsFilled = False, ignoreNanValues = True, ignoreInfValues = True\<rparr>
        [[Finite 1, Finite 0]]
     = Inr (\<lparr>window = 2, values_buf = \<lparr>ptr = Some 0, len = 2, cap = 2\<rparr>, valPos = 1,
          slotsFilled = False, ignoreNanValues = True, ignoreInfValues = True\<rparr>,
            [[Finite 1, Finite 0]])"
    using t1 by simp
  have z: "(\<exists>s' h' d h''. Add [NaN]
        \<lparr>window = 2, values_buf = \<lparr>ptr = Some 0, len = 2, cap = 2\<rparr>, valPos = 1,
          slotsFilled = False, ignoreNanValues = False, ignoreInfValues = False\<rparr>
        [[Finite 1, Finite 0]] = Inr (s', h') \<and>
      Values s' h' = Inr (d, h'') \<and> NaN \<in> set (contents h'' d))"
    using t2 c by blast
  show ?thesis using e1 e2 a n x y z by simp
qed

section \<open>Values is a copy\<close>

lemma live_append:
  assumes ok: "store_ok s h"
  shows "live s (h @ hs) = live s h"
proof -
  from ok obtain a where a: "ptr (values_buf s) = Some a" "a < length h" by (rule store_okD)
  have "contents (h @ hs) (values_buf s) = contents h (values_buf s)"
    using a by (rule contents_append)
  then show ?thesis using live_eq [OF ok] live_eq [OF store_ok_append [OF ok, of hs]] by simp
qed



section \<open>The escape hatches\<close>



section \<open>The wrapper under one thread\<close>

lemma with_RLock_free:
  assumes "mux c = \<lparr>writer = False, readers = 0\<rparr>"
  shows "with_RLock c body = (case body of Inl p \<Rightarrow> Inl p | Inr r \<Rightarrow> Inr (r, c))"
  using assms by (cases c) (simp add: with_RLock_def RLock_def RUnlock_def split: sum.splits)

lemma concurrent_Add_free:
  assumes "mux c = \<lparr>writer = False, readers = 0\<rparr>"
  shows "concurrent_Add vals c h =
           (case Add vals (ma c) h of Inl p \<Rightarrow> Inl p | Inr (s', h') \<Rightarrow> Inr (c\<lparr>ma := s'\<rparr>, h'))"
  using assms by (cases c) (simp add: concurrent_Add_def Lock_def Unlock_def split: sum.splits)

lemma concurrent_exec_free:
  "concurrent_exec x \<lparr>ma = s, mux = \<lparr>writer = False, readers = 0\<rparr>\<rparr> h =
     (case exec x s h of
        Inl p \<Rightarrow> Inl p
      | Inr (r, s', h') \<Rightarrow> Inr (r, \<lparr>ma = s', mux = \<lparr>writer = False, readers = 0\<rparr>\<rparr>, h'))"
  by (cases x)
    (simp_all add: concurrent_Add_free with_RLock_free returning_def returning_c_def
      concurrent_Window_def concurrent_SlotsFilled_def concurrent_Values_def concurrent_Count_def
      concurrent_Avg_def concurrent_Median_def concurrent_Min_def concurrent_Max_def
      concurrent_UnsafeDoStat_def concurrent_UnsafeDo_def split: sum.splits)

lemma concurrent_run_free:
  "concurrent_run xs \<lparr>ma = s, mux = \<lparr>writer = False, readers = 0\<rparr>\<rparr> h =
     (case run xs s h of
        Inl p \<Rightarrow> Inl p
      | Inr (rs, s', h') \<Rightarrow> Inr (rs, \<lparr>ma = s', mux = \<lparr>writer = False, readers = 0\<rparr>\<rparr>, h'))"
  by (induction xs arbitrary: s h) (auto simp: concurrent_exec_free split: sum.splits)

text \<open>
  C7. Run by one thread, a program on the store of \<open>NewConcurrent\<close> does what it does on
  the store of \<open>New\<close> with the same options: it fails where and how the bare program
  fails, and otherwise returns the same results and leaves the same heap, with the wrapped
  store in the state of the bare one and the lock free again.
\<close>

theorem C7_wrapper_transparent:
  "concurrent_session opts cs h0 =
     (case session opts cs h0 of
        Inl p \<Rightarrow> Inl p
      | Inr (rs, s, h) \<Rightarrow> Inr (rs, \<lparr>ma = s, mux = \<lparr>writer = False, readers = 0\<rparr>\<rparr>, h))"
  by (simp add: concurrent_session_def session_def NewConcurrent_def concurrent_run_free
      split: sum.splits)
section \<open>Reads\<close>

lemma observed_read:
  assumes ok: "store_ok s h" and ok': "store_ok s h'" and l: "live s h' = live s h"
    and c: "is_read c"
  shows "observed (exec c s h') = observed (exec c s h)"
proof -
  from live_total [OF ok] obtain xs where lx: "live s h = Inr xs" ..
  then have lx': "live s h' = Inr xs" using l by simp
  note e = exec_read_eq [OF ok lx] and e' = exec_read_eq [OF ok' lx']
  show ?thesis
    using c e(1-8) e'(1-8)
    by (cases c) (simp_all add: observed_def contents_fresh)
qed

text \<open>
  C8. At any point of any program, each of \<open>Window\<close>, \<open>SlotsFilled\<close>, \<open>Count\<close>, \<open>Values\<close>,
  \<open>Avg\<close>, \<open>Median\<close>, \<open>Min\<close> and \<open>Max\<close> returns, and leaves the store's fields, its buffer
  and its live slice as they were; every one of these calls made after it shows the caller
  what it would have shown before, so a call repeated returns the same again.
\<close>

theorem C8_reads_change_nothing:
  assumes "session opts cs h0 = Inr (rs, s, h)" and "is_read c"
  shows "\<exists>r h'. exec c s h = Inr (r, s, h') \<and>
           contents h' (values_buf s) = contents h (values_buf s) \<and>
           live s h' = live s h \<and>
           (\<forall>c'. is_read c' \<longrightarrow> observed (exec c' s h') = observed (exec c' s h))"
proof -
  from session_ring_ok [OF assms(1)] have ok: "store_ok s h" by (simp add: ring_ok_def)
  have n: "\<forall>vals. c \<noteq> CallAdd vals" using assms(2) by auto
  from exec_not_Add [OF ok n] obtain r hs where e: "exec c s h = Inr (r, s, h @ hs)" by blast
  from ok obtain a where a: "ptr (values_buf s) = Some a" "a < length h" by (rule store_okD)
  have buf: "contents (h @ hs) (values_buf s) = contents h (values_buf s)"
    using a by (rule contents_append)
  have l: "live s (h @ hs) = live s h" by (rule live_append [OF ok])
  have ok': "store_ok s (h @ hs)" by (rule store_ok_append [OF ok])
  have "\<forall>c'. is_read c' \<longrightarrow> observed (exec c' s (h @ hs)) = observed (exec c' s h)"
    using observed_read [OF ok ok' l] by blast
  then show ?thesis using e buf l by blast
qed

theorem C8_reads_change_nothing_witness:
  "session \<lparr>IgnoreNanValues = False, IgnoreInfValues = False, Window = 2\<rparr>
      [CallAdd [Finite 1]] []
     = Inr ([RetNothing],
            \<lparr>window = 2, values_buf = \<lparr>ptr = Some 0, len = 2, cap = 2\<rparr>, valPos = 1,
              slotsFilled = False, ignoreNanValues = False, ignoreInfValues = False\<rparr>,
            [[Finite 1, Finite 0]]) \<and>
   is_read CallValues \<and>
   exec CallValues
       \<lparr>window = 2, values_buf = \<lparr>ptr = Some 0, len = 2, cap = 2\<rparr>, valPos = 1,
              slotsFilled = False, ignoreNanValues = False, ignoreInfValues = False\<rparr>
       [[Finite 1, Finite 0]]
     = Inr (RetData \<lparr>ptr = Some 1, len = 1, cap = 1\<rparr>,
            \<lparr>window = 2, values_buf = \<lparr>ptr = Some 0, len = 2, cap = 2\<rparr>, valPos = 1,
              slotsFilled = False, ignoreNanValues = False, ignoreInfValues = False\<rparr>,
            [[Finite 1, Finite 0], [Finite 1]]) \<and>
   observed (exec CallValues
       \<lparr>window = 2, values_buf = \<lparr>ptr = Some 0, len = 2, cap = 2\<rparr>, valPos = 1,
              slotsFilled = False, ignoreNanValues = False, ignoreInfValues = False\<rparr>
       [[Finite 1, Finite 0], [Finite 1]])
     = Inr (Inr [Finite 1]) \<and>
   observed (exec CallAvg
       \<lparr>window = 2, values_buf = \<lparr>ptr = Some 0, len = 2, cap = 2\<rparr>, valPos = 1,
              slotsFilled = False, ignoreNanValues = False, ignoreInfValues = False\<rparr>
       [[Finite 1, Finite 0], [Finite 1]])
     = Inr (Inl (RetFloat (Finite 1)))"
proof -
  have e: "session \<lparr>IgnoreNanValues = False, IgnoreInfValues = False, Window = 2\<rparr>
      [CallAdd [Finite 1]] []
     = Inr ([RetNothing],
            \<lparr>window = 2, values_buf = \<lparr>ptr = Some 0, len = 2, cap = 2\<rparr>, valPos = 1,
              slotsFilled = False, ignoreNanValues = False, ignoreInfValues = False\<rparr>,
            [[Finite 1, Finite 0]])"
    by (simp add: session_def New_eq IsNaN_def IsInf_def Add_store_def slice_set_def go_rem_def
        eval_nat_numeral)
  have r: "is_read CallValues" by simp
  have x: "exec CallValues
       \<lparr>window = 2, values_buf = \<lparr>ptr = Some 0, len = 2, cap = 2\<rparr>, valPos = 1,
              slotsFilled = False, ignoreNanValues = False, ignoreInfValues = False\<rparr>
       [[Finite 1, Finite 0]]
     = Inr (RetData \<lparr>ptr = Some 1, len = 1, cap = 1\<rparr>,
            \<lparr>window = 2, values_buf = \<lparr>ptr = Some 0, len = 2, cap = 2\<rparr>, valPos = 1,
              slotsFilled = False, ignoreNanValues = False, ignoreInfValues = False\<rparr>,
            [[Finite 1, Finite 0], [Finite 1]])"
    by (simp add: Values_def filledValues_def slice_upto_def make_slice_def copy_slice_def
        contents_def)
  have v0: "observed (exec CallValues
       \<lparr>window = 2, values_buf = \<lparr>ptr = Some 0, len = 2, cap = 2\<rparr>, valPos = 1,
              slotsFilled = False, ignoreNanValues = False, ignoreInfValues = False\<rparr>
       [[Finite 1, Finite 0]]) = Inr (Inr [Finite 1])"
    unfolding x by (simp add: observed_def contents_def)
  have a0: "observed (exec CallAvg
       \<lparr>window = 2, values_buf = \<lparr>ptr = Some 0, len = 2, cap = 2\<rparr>, valPos = 1,
              slotsFilled = False, ignoreNanValues = False, ignoreInfValues = False\<rparr>
       [[Finite 1, Finite 0]]) = Inr (Inl (RetFloat (Finite 1)))"
    by (simp add: observed_def returning_def Avg_def filledValues_def slice_upto_def contents_def
        stats_Mean_def stats_Sum_def or_zero_def)
  from C8_reads_change_nothing [OF e r] x have k:
    "\<forall>c'. is_read c' \<longrightarrow>
       observed (exec c' \<lparr>window = 2, values_buf = \<lparr>ptr = Some 0, len = 2, cap = 2\<rparr>, valPos = 1,
              slotsFilled = False, ignoreNanValues = False, ignoreInfValues = False\<rparr>
          [[Finite 1, Finite 0], [Finite 1]])
       = observed (exec c' \<lparr>window = 2, values_buf = \<lparr>ptr = Some 0, len = 2, cap = 2\<rparr>, valPos = 1,
              slotsFilled = False, ignoreNanValues = False, ignoreInfValues = False\<rparr>
          [[Finite 1, Finite 0]])"
    by simp
  have "is_read CallAvg" by simp
  from k [rule_format, OF r] k [rule_format, OF this] show ?thesis
    unfolding v0 a0 using e r x by simp
qed
section \<open>Invariants of the store\<close>

text \<open>
  C9. In a store of capacity \<open>w \<ge> 1\<close>, at any point of any program: the cursor is in
  \<open>[0, w)\<close>; the buffer has \<open>w\<close> cells and \<open>Window\<close> returns \<open>w\<close>; \<open>Count\<close> returns \<open>w\<close>
  when the store is full and the cursor otherwise, which is at most \<open>w\<close> and is the length
  of what \<open>Values\<close> returns; and once the store is full it is full after any further calls.
\<close>

theorem C9_store_invariants:
  assumes "1 \<le> Window opts" and "session opts cs h0 = Inr (rs, s, h)"
  shows "0 \<le> valPos s \<and> valPos s < Window opts \<and>
         int (len (values_buf s)) = Window opts \<and>
         int (length (contents h (values_buf s))) = Window opts \<and>
         Window_of s = Window opts \<and>
         Count s = Inr (if SlotsFilled s then Window opts else valPos s) \<and>
         (\<exists>n. Count s = Inr n \<and> 0 \<le> n \<and> n \<le> Window opts \<and>
            (\<exists>d h'. Values s h = Inr (d, h') \<and> int (length (contents h' d)) = n)) \<and>
         (SlotsFilled s \<longrightarrow>
            (\<forall>cs' rs' s' h'. run cs' s h = Inr (rs', s', h') \<longrightarrow> SlotsFilled s'))"
proof -
  define acc where "acc = filter (accepted opts) (added cs)"
  from session_ring_ok [OF assms(2)] have r: "ring_ok acc s h" and b: "built opts s"
    by (simp_all add: acc_def)
  from r have ok: "store_ok s h" by (simp add: ring_ok_def)
  have w: "1 \<le> window s" and ww: "window s = Window opts"
    using b assms(1) by (simp_all add: built_def)
  from ok obtain a where a: "ptr (values_buf s) = Some a" "a < length h"
    "length (h ! a) = nat (window s)" "len (values_buf s) = nat (window s)"
    "0 \<le> valPos s" "valPos s < window s \<or> (window s = 0 \<and> valPos s = 0)"
    by (rule store_okD)
  have cur: "0 \<le> valPos s \<and> valPos s < Window opts" using a(5,6) w ww by auto
  have buf: "int (len (values_buf s)) = Window opts \<and>
             int (length (contents h (values_buf s))) = Window opts"
    using contents_buf [OF ok a(1)] a(3,4) w ww by simp
  have cnt: "Count s = Inr (live_count s)" by (rule Count_eq [OF ok])
  have bound: "0 \<le> live_count s \<and> live_count s \<le> Window opts"
    using cur ww w by (simp add: live_count_def)
  from live_eq [OF ok] have l: "live s h = Inr (take (nat (live_count s)) (contents h (values_buf s)))" .
  have lenc: "length (contents h (values_buf s)) = nat (Window opts)" using buf by linarith
  have ll: "int (length (take (nat (live_count s)) (contents h (values_buf s)))) = live_count s"
    using lenc bound by (auto simp: min_def)
  from Values_live [OF ok l] ll have
    vals: "\<exists>d h'. Values s h = Inr (d, h') \<and> int (length (contents h' d)) = live_count s"
    by auto
  have mono: "SlotsFilled s'" if f: "SlotsFilled s" and ru: "run cs' s h = Inr (rs', s', h')"
    for cs' rs' s' h'
  proof -
    from run_ring_ok [OF r b ru] have
      r': "ring_ok (acc @ filter (accepted opts) (added cs')) s' h'" and b': "built opts s'"
      by simp_all
    have w': "1 \<le> window s'" using b' assms(1) by (simp add: built_def)
    have "nat (window s) \<le> length acc" using ring_ok_filled [OF r w] f by (simp add: SlotsFilled_def)
    then have "nat (window s') \<le> length (acc @ filter (accepted opts) (added cs'))"
      using b b' by (simp add: built_def)
    then show ?thesis using ring_ok_filled [OF r' w'] by (simp add: SlotsFilled_def)
  qed
  have "Count s = Inr (if SlotsFilled s then Window opts else valPos s)"
    using cnt ww by (simp add: live_count_def SlotsFilled_def)
  moreover have "\<exists>n. Count s = Inr n \<and> 0 \<le> n \<and> n \<le> Window opts \<and>
            (\<exists>d h'. Values s h = Inr (d, h') \<and> int (length (contents h' d)) = n)"
    using cnt bound vals by blast
  moreover have "Window_of s = Window opts" using ww by (simp add: Window_of_def)
  ultimately show ?thesis using cur buf mono by blast
qed

theorem C9_store_invariants_witness:
  "1 \<le> Window \<lparr>IgnoreNanValues = False, IgnoreInfValues = False, Window = 2\<rparr> \<and>
   session \<lparr>IgnoreNanValues = False, IgnoreInfValues = False, Window = 2\<rparr>
      [CallAdd [Finite 1, Finite 3]] []
     = Inr ([RetNothing],
            \<lparr>window = 2, values_buf = \<lparr>ptr = Some 0, len = 2, cap = 2\<rparr>, valPos = 0,
              slotsFilled = True, ignoreNanValues = False, ignoreInfValues = False\<rparr>,
            [[Finite 1, Finite 3]]) \<and>
   Count \<lparr>window = 2, values_buf = \<lparr>ptr = Some 0, len = 2, cap = 2\<rparr>, valPos = 0,
              slotsFilled = True, ignoreNanValues = False, ignoreInfValues = False\<rparr> = Inr 2 \<and>
   Window_of \<lparr>window = 2, values_buf = \<lparr>ptr = Some 0, len = 2, cap = 2\<rparr>, valPos = 0,
              slotsFilled = True, ignoreNanValues = False, ignoreInfValues = False\<rparr> = 2"
proof -
  have w: "1 \<le> Window \<lparr>IgnoreNanValues = False, IgnoreInfValues = False, Window = 2\<rparr>" by simp
  have e: "session \<lparr>IgnoreNanValues = False, IgnoreInfValues = False, Window = 2\<rparr>
      [CallAdd [Finite 1, Finite 3]] []
     = Inr ([RetNothing],
            \<lparr>window = 2, values_buf = \<lparr>ptr = Some 0, len = 2, cap = 2\<rparr>, valPos = 0,
              slotsFilled = True, ignoreNanValues = False, ignoreInfValues = False\<rparr>,
            [[Finite 1, Finite 3]])"
    by (simp add: session_def New_eq IsNaN_def IsInf_def Add_store_def slice_set_def go_rem_def
        eval_nat_numeral)
  show ?thesis using C9_store_invariants [OF w e] e by (simp add: SlotsFilled_def)
qed

section \<open>A window of no cells\<close>

lemma Add_empty_window_fails:
  assumes "store_ok s h" "window s = 0" "built opts s" "\<exists>v \<in> set vals. accepted opts v"
  shows "Add vals s h = Inl IndexOutOfRange"
  using assms
proof (induction vals)
  case Nil
  then show ?case by simp
next
  case (Cons v vals)
  show ?case
  proof (cases "accepted opts v")
    case True
    then show ?thesis
      using Add_store_empty_window [OF Cons.prems(1,2), of v] Cons.prems(3)
      by (auto simp: accepted_def built_def)
  next
    case False
    then have "Add (v # vals) s h = Add vals s h"
      using Cons.prems(3) by (auto simp: accepted_def built_def)
    then show ?thesis using Cons False by auto
  qed
qed

text \<open>
  C10, as stated, fails for a negative window: \<open>make\<close> panics on a negative length, so
  \<open>New\<close> panics and returns no store.
\<close>

theorem C10_counterexample:
  "Window \<lparr>IgnoreNanValues = False, IgnoreInfValues = False, Window = - 1\<rparr> \<le> 0 \<and>
   New \<lparr>IgnoreNanValues = False, IgnoreInfValues = False, Window = - 1\<rparr> []
     = Inl MakeSliceLenOutOfRange"
  by (simp add: New_def make_slice_def)

text \<open>
  C10, amended. With \<open>Window = 0\<close>, \<open>New\<close> returns a store with a buffer of no cells and
  reports nothing; at any point of any program on it, an \<open>Add\<close> that holds an accepted
  value panics on the write at the cursor (the modulo is not reached), while \<open>Count\<close>
  returns 0, \<open>SlotsFilled\<close> false, \<open>Avg\<close>, \<open>Median\<close>, \<open>Min\<close> and \<open>Max\<close> 0 and \<open>Values\<close>
  no elements. With \<open>Window < 0\<close>, \<open>New\<close> itself panics.
\<close>

theorem C10_empty_window:
  assumes "Window opts \<le> 0"
  shows "(Window opts < 0 \<longrightarrow> New opts h0 = Inl MakeSliceLenOutOfRange) \<and>
         (Window opts = 0 \<longrightarrow>
            (\<exists>s0 h1. New opts h0 = Inr (s0, h1) \<and> len (values_buf s0) = 0) \<and>
            (\<forall>cs rs s h. session opts cs h0 = Inr (rs, s, h) \<longrightarrow>
               (\<forall>vals. (\<exists>v \<in> set vals. accepted opts v) \<longrightarrow> Add vals s h = Inl IndexOutOfRange) \<and>
               Count s = Inr 0 \<and> \<not> SlotsFilled s \<and>
               Avg s h = Inr (Finite 0) \<and> Median s h = Inr (Finite 0) \<and>
               Min_val s h = Inr (Finite 0) \<and> Max_val s h = Inr (Finite 0) \<and>
               (\<exists>d h'. Values s h = Inr (d, h') \<and> contents h' d = [])))"
proof -
  have neg: "Window opts < 0 \<longrightarrow> New opts h0 = Inl MakeSliceLenOutOfRange"
    by (simp add: New_eq)
  have zero_new: "\<exists>s0 h1. New opts h0 = Inr (s0, h1) \<and> len (values_buf s0) = 0"
    if "Window opts = 0"
    using that by (simp add: New_eq)
  have zero_run:
    "(\<forall>vals. (\<exists>v \<in> set vals. accepted opts v) \<longrightarrow> Add vals s h = Inl IndexOutOfRange) \<and>
     Count s = Inr 0 \<and> \<not> SlotsFilled s \<and>
     Avg s h = Inr (Finite 0) \<and> Median s h = Inr (Finite 0) \<and>
     Min_val s h = Inr (Finite 0) \<and> Max_val s h = Inr (Finite 0) \<and>
     (\<exists>d h'. Values s h = Inr (d, h') \<and> contents h' d = [])"
    if z: "Window opts = 0" and se: "session opts cs h0 = Inr (rs, s, h)" for cs rs s h
  proof -
    from session_ring_ok [OF se] have r: "ring_ok (filter (accepted opts) (added cs)) s h"
      and b: "built opts s" by simp_all
    from r have ok: "store_ok s h" by (simp add: ring_ok_def)
    have w0: "window s = 0" using b z by (simp add: built_def)
    have nf: "\<not> slotsFilled s" and vp: "valPos s = 0" using ok w0 by (auto simp: store_ok_def)
    have lc: "live_count s = 0" using nf vp by (simp add: live_count_def)
    have l: "live s h = Inr []" using live_eq [OF ok] lc by simp
    have "\<forall>vals. (\<exists>v \<in> set vals. accepted opts v) \<longrightarrow> Add vals s h = Inl IndexOutOfRange"
      using Add_empty_window_fails [OF ok w0 b] by blast
    moreover have "Count s = Inr 0" using Count_eq [OF ok] lc by simp
    moreover have "\<exists>d h'. Values s h = Inr (d, h') \<and> contents h' d = []"
      using Values_live [OF ok l] by blast
    ultimately show ?thesis
      using nf l by (simp add: SlotsFilled_def Avg_live Median_live Min_live Max_live stats_empty)
  qed
  show ?thesis using neg zero_new zero_run by blast
qed

theorem C10_empty_window_witness:
  "Window \<lparr>IgnoreNanValues = True, IgnoreInfValues = False, Window = 0\<rparr> \<le> 0 \<and>
   session \<lparr>IgnoreNanValues = True, IgnoreInfValues = False, Window = 0\<rparr> [CallAdd [NaN]] []
     = Inr ([RetNothing],
            \<lparr>window = 0, values_buf = \<lparr>ptr = Some 0, len = 0, cap = 0\<rparr>, valPos = 0,
              slotsFilled = False, ignoreNanValues = True, ignoreInfValues = False\<rparr>,
            [[]]) \<and>
   Add [NaN, Finite 1]
       \<lparr>window = 0, values_buf = \<lparr>ptr = Some 0, len = 0, cap = 0\<rparr>, valPos = 0,
              slotsFilled = False, ignoreNanValues = True, ignoreInfValues = False\<rparr> [[]]
     = Inl IndexOutOfRange \<and>
   Count \<lparr>window = 0, values_buf = \<lparr>ptr = Some 0, len = 0, cap = 0\<rparr>, valPos = 0,
              slotsFilled = False, ignoreNanValues = True, ignoreInfValues = False\<rparr> = Inr 0 \<and>
   Avg \<lparr>window = 0, values_buf = \<lparr>ptr = Some 0, len = 0, cap = 0\<rparr>, valPos = 0,
              slotsFilled = False, ignoreNanValues = True, ignoreInfValues = False\<rparr> [[]]
     = Inr (Finite 0) \<and>
   Window \<lparr>IgnoreNanValues = False, IgnoreInfValues = False, Window = - 2\<rparr> < 0 \<and>
   New \<lparr>IgnoreNanValues = False, IgnoreInfValues = False, Window = - 2\<rparr> [] = Inl MakeSliceLenOutOfRange"
proof -
  have wn: "Window \<lparr>IgnoreNanValues = False, IgnoreInfValues = False, Window = - 2\<rparr> \<le> 0"
    and wn': "Window \<lparr>IgnoreNanValues = False, IgnoreInfValues = False, Window = - 2\<rparr> < 0" by simp_all
  have neg: "New \<lparr>IgnoreNanValues = False, IgnoreInfValues = False, Window = - 2\<rparr> [] = Inl MakeSliceLenOutOfRange"
    using C10_empty_window [OF wn, of "[]"] wn' by blast
  have w: "Window \<lparr>IgnoreNanValues = True, IgnoreInfValues = False, Window = 0\<rparr> \<le> 0" by simp
  have e: "session \<lparr>IgnoreNanValues = True, IgnoreInfValues = False, Window = 0\<rparr> [CallAdd [NaN]] []
     = Inr ([RetNothing],
            \<lparr>window = 0, values_buf = \<lparr>ptr = Some 0, len = 0, cap = 0\<rparr>, valPos = 0,
              slotsFilled = False, ignoreNanValues = True, ignoreInfValues = False\<rparr>,
            [[]])"
    by (simp add: session_def New_eq IsNaN_def)
  have a: "\<exists>v \<in> set [NaN, Finite 1].
             accepted \<lparr>IgnoreNanValues = True, IgnoreInfValues = False, Window = 0\<rparr> v"
    by (simp add: accepted_def IsNaN_def IsInf_def)
  have z: "Window \<lparr>IgnoreNanValues = True, IgnoreInfValues = False, Window = 0\<rparr> = 0" by simp
  note t = C10_empty_window [OF w, of "[]", THEN conjunct2, rule_format, OF z,
      THEN conjunct2, rule_format, OF e]
  from t a have "Add [NaN, Finite 1]
       \<lparr>window = 0, values_buf = \<lparr>ptr = Some 0, len = 0, cap = 0\<rparr>, valPos = 0,
              slotsFilled = False, ignoreNanValues = True, ignoreInfValues = False\<rparr> [[]]
     = Inl IndexOutOfRange" by blast
  then show ?thesis using t e neg by simp
qed
end
